theory Spec2Isabelle
  imports Complex_Main
begin

section \<open>JavaScript values used by the library\<close>

text \<open>
  A JavaScript string is a sequence of UTF-16 code units. A code unit is modelled by
  its numeric value; every regular expression of the source is written without the
  \<^verbatim>\<open>u\<close> flag and so works code unit by code unit.
\<close>

type_synonym jschar = nat
type_synonym jsstring = "jschar list"

text \<open>Readable literals for examples: the code units of an ASCII text.\<close>

definition str :: "string \<Rightarrow> jsstring" where
  "str cs = map of_char cs"

text \<open>
  A JavaScript number, with rounding left out: a finite value is a real number, and the
  three special values are kept apart. Every zero that reaches a division below is the
  length of a string or of a set, hence \<open>+0\<close>.
\<close>

datatype jsnum = Fin real | PInf | NInf | NaN

fun js_neg :: "jsnum \<Rightarrow> jsnum" where
  "js_neg (Fin x) = Fin (- x)"
| "js_neg PInf = NInf"
| "js_neg NInf = PInf"
| "js_neg NaN = NaN"

fun js_add :: "jsnum \<Rightarrow> jsnum \<Rightarrow> jsnum" where
  "js_add NaN y = NaN"
| "js_add x NaN = NaN"
| "js_add (Fin x) (Fin y) = Fin (x + y)"
| "js_add PInf NInf = NaN"
| "js_add NInf PInf = NaN"
| "js_add PInf y = PInf"
| "js_add NInf y = NInf"
| "js_add (Fin x) y = y"

definition js_sub :: "jsnum \<Rightarrow> jsnum \<Rightarrow> jsnum" where
  "js_sub x y = js_add x (js_neg y)"

fun js_mul :: "jsnum \<Rightarrow> jsnum \<Rightarrow> jsnum" where
  "js_mul NaN y = NaN"
| "js_mul x NaN = NaN"
| "js_mul (Fin x) (Fin y) = Fin (x * y)"
| "js_mul (Fin x) PInf = (if x = 0 then NaN else if 0 < x then PInf else NInf)"
| "js_mul (Fin x) NInf = (if x = 0 then NaN else if 0 < x then NInf else PInf)"
| "js_mul PInf (Fin y) = (if y = 0 then NaN else if 0 < y then PInf else NInf)"
| "js_mul NInf (Fin y) = (if y = 0 then NaN else if 0 < y then NInf else PInf)"
| "js_mul PInf PInf = PInf"
| "js_mul NInf NInf = PInf"
| "js_mul PInf NInf = NInf"
| "js_mul NInf PInf = NInf"

fun js_div :: "jsnum \<Rightarrow> jsnum \<Rightarrow> jsnum" where
  "js_div NaN y = NaN"
| "js_div x NaN = NaN"
| "js_div (Fin x) (Fin y) =
     (if y = 0 then (if x = 0 then NaN else if 0 < x then PInf else NInf)
      else Fin (x / y))"
| "js_div (Fin x) y = Fin 0"
| "js_div x (Fin y) = (if 0 \<le> y then x else js_neg x)"
| "js_div x y = NaN"

text \<open>\<^verbatim>\<open>Math.min\<close> and \<^verbatim>\<open>Math.max\<close>: \<open>NaN\<close> as soon as one argument is \<open>NaN\<close>.\<close>

fun Math_min :: "jsnum \<Rightarrow> jsnum \<Rightarrow> jsnum" where
  "Math_min NaN y = NaN"
| "Math_min x NaN = NaN"
| "Math_min NInf y = NInf"
| "Math_min x NInf = NInf"
| "Math_min PInf y = y"
| "Math_min x PInf = x"
| "Math_min (Fin x) (Fin y) = Fin (min x y)"

fun Math_max :: "jsnum \<Rightarrow> jsnum \<Rightarrow> jsnum" where
  "Math_max NaN y = NaN"
| "Math_max x NaN = NaN"
| "Math_max PInf y = PInf"
| "Math_max x PInf = PInf"
| "Math_max NInf y = y"
| "Math_max x NInf = x"
| "Math_max (Fin x) (Fin y) = Fin (max x y)"

text \<open>The comparisons \<^verbatim>\<open><=\<close> and \<^verbatim>\<open>===\<close> on numbers: false whenever \<open>NaN\<close> takes part.\<close>

fun js_le :: "jsnum \<Rightarrow> jsnum \<Rightarrow> bool" where
  "js_le NaN y = False"
| "js_le x NaN = False"
| "js_le NInf y = True"
| "js_le x PInf = True"
| "js_le (Fin x) (Fin y) = (x \<le> y)"
| "js_le x y = False"

fun js_strict_eq :: "jsnum \<Rightarrow> jsnum \<Rightarrow> bool" where
  "js_strict_eq NaN y = False"
| "js_strict_eq x NaN = False"
| "js_strict_eq x y = (x = y)"

definition of_len :: "nat \<Rightarrow> jsnum" where
  "of_len n = Fin (real n)"

subsection \<open>Built-ins that depend on the Unicode tables\<close>

text \<open>
  \<^verbatim>\<open>String.prototype.toLowerCase\<close> and \<^verbatim>\<open>String.prototype.normalize\<close> belong to
  the JavaScript runtime, not to the library. The library's functions take them as a
  parameter, so a theorem stated for every runtime holds for the real one.
\<close>

datatype normal_form = NFC | NFD | NFKC | NFKD

record js_runtime =
  toLowerCase :: "jsstring \<Rightarrow> jsstring"
  normalizeStr :: "normal_form \<Rightarrow> jsstring \<Rightarrow> jsstring"

subsection \<open>Character classes and string primitives\<close>

text \<open>\<^verbatim>\<open>\s\<close>, which is also what \<^verbatim>\<open>trim\<close> removes: white space and line terminators.\<close>

definition is_space :: "jschar \<Rightarrow> bool" where
  "is_space c \<longleftrightarrow>
     c \<in> {9, 10, 11, 12, 13, 32, 160, 5760, 8232, 8233, 8239, 8287, 12288, 65279}
     \<or> (8192 \<le> c \<and> c \<le> 8202)"

text \<open>\<^verbatim>\<open>\w\<close> is \<^verbatim>\<open>[A-Za-z0-9_]\<close>; \<^verbatim>\<open>\W\<close> is its complement.\<close>

definition is_word :: "jschar \<Rightarrow> bool" where
  "is_word c \<longleftrightarrow>
     (48 \<le> c \<and> c \<le> 57) \<or> (65 \<le> c \<and> c \<le> 90) \<or> c = 95 \<or> (97 \<le> c \<and> c \<le> 122)"

definition is_nonword :: "jschar \<Rightarrow> bool" where
  "is_nonword c \<longleftrightarrow> \<not> is_word c"

definition trim :: "jsstring \<Rightarrow> jsstring" where
  "trim s = rev (dropWhile is_space (rev (dropWhile is_space s)))"

text \<open>
  \<^verbatim>\<open>s.split(/[C]+/)\<close> for a character class \<open>C\<close>: the pieces between the maximal runs
  of separator characters, the empty pieces at both ends included.
\<close>

function split_re :: "(jschar \<Rightarrow> bool) \<Rightarrow> jsstring \<Rightarrow> jsstring list" where
  "split_re sep [] = [[]]"
| "split_re sep (c # cs) =
     (if sep c then [] # split_re sep (dropWhile sep cs)
      else (case split_re sep cs of [] \<Rightarrow> [[c]] | t # ts \<Rightarrow> (c # t) # ts))"
  by pat_completeness auto
termination
  by (relation "measure (\<lambda>(sep, s). length s)")
     (auto simp: less_Suc_eq_le length_dropWhile_le)

text \<open>\<^verbatim>\<open>.filter(Boolean)\<close> on a list of strings keeps the non-empty ones.\<close>

definition filter_Boolean :: "jsstring list \<Rightarrow> jsstring list" where
  "filter_Boolean ts = filter (\<lambda>t. t \<noteq> []) ts"

text \<open>
  \<^verbatim>\<open>new Set(xs)\<close> keeps the first occurrence of every element, in insertion order;
  spreading the set gives this list back and \<^verbatim>\<open>size\<close> is its length.
\<close>

definition js_Set :: "'a list \<Rightarrow> 'a list" where
  "js_Set xs = foldl (\<lambda>acc x. if x \<in> set acc then acc else acc @ [x]) [] xs"

text \<open>
  A two-dimensional array of numbers. A cell still holding \<^verbatim>\<open>null\<close> is stored as 0,
  the number every arithmetic use of \<^verbatim>\<open>null\<close> reads; all indices used below are in range.
\<close>

type_synonym table = "nat list list"

definition tget :: "table \<Rightarrow> nat \<Rightarrow> nat \<Rightarrow> nat" where
  "tget t r c = t ! r ! c"

definition tset :: "table \<Rightarrow> nat \<Rightarrow> nat \<Rightarrow> nat \<Rightarrow> table" where
  "tset t r c v = t[r := (t ! r)[c := v]]"

section \<open>compareStrings\<close>

text \<open>An argument is a string or absent (\<^verbatim>\<open>null\<close>, \<^verbatim>\<open>undefined\<close>); \<^verbatim>\<open>!a\<close> holds for an
  absent argument and for the empty string.\<close>

definition falsy :: "jsstring option \<Rightarrow> bool" where
  "falsy a \<longleftrightarrow> (case a of None \<Rightarrow> True | Some s \<Rightarrow> s = [])"

subsection \<open>Levenshtein table\<close>

definition lev_cell :: "jsstring \<Rightarrow> jsstring \<Rightarrow> nat \<Rightarrow> table \<Rightarrow> nat \<Rightarrow> table" where
  "lev_cell s1 s2 j dp i =
     (let cost = (if s1 ! (i - 1) = s2 ! (j - 1) then 0 else 1 :: nat)
      in tset dp j i
           (min (min (tget dp (j - 1) i + 1) (tget dp j (i - 1) + 1))
                (tget dp (j - 1) (i - 1) + cost)))"

definition lev_table :: "jsstring \<Rightarrow> jsstring \<Rightarrow> table" where
  "lev_table s1 s2 =
     (let dp0 = replicate (length s2 + 1) (replicate (length s1 + 1) 0);
          dp1 = foldl (\<lambda>dp i. tset dp 0 i i) dp0 [0..<length s1 + 1];
          dp2 = foldl (\<lambda>dp j. tset dp j 0 j) dp1 [0..<length s2 + 1]
      in foldl (\<lambda>dp j. foldl (lev_cell s1 s2 j) dp [1..<length s1 + 1])
           dp2 [1..<length s2 + 1])"

definition levenshtein :: "jsstring \<Rightarrow> jsstring \<Rightarrow> nat" where
  "levenshtein s1 s2 = tget (lev_table s1 s2) (length s2) (length s1)"

definition levScore :: "jsstring \<Rightarrow> jsstring \<Rightarrow> jsnum" where
  "levScore a b =
     js_sub (Fin 1) (js_div (of_len (levenshtein a b)) (of_len (max (length a) (length b))))"

subsection \<open>Token Jaccard\<close>

definition tokenize :: "jsstring \<Rightarrow> jsstring list" where
  "tokenize s = filter_Boolean (split_re is_nonword s)"

definition jaccard :: "jsstring \<Rightarrow> jsstring \<Rightarrow> jsnum" where
  "jaccard a b =
     (let A = js_Set (tokenize a);
          B = js_Set (tokenize b);
          inter = length (filter (\<lambda>x. x \<in> set B) A);
          union = length (js_Set (A @ B))
      in if union \<noteq> 0 then js_div (of_len inter) (of_len union) else Fin 0)"

subsection \<open>Longest common substring\<close>

definition lcs_cell :: "jsstring \<Rightarrow> jsstring \<Rightarrow> nat \<Rightarrow> table \<times> nat \<Rightarrow> nat \<Rightarrow> table \<times> nat" where
  "lcs_cell s1 s2 i st j =
     (case st of (m, longest) \<Rightarrow>
        if s1 ! i = s2 ! j then
          (let v = (if i \<noteq> 0 \<and> j \<noteq> 0 then tget m (i - 1) (j - 1) else 0) + 1
           in (tset m i j v, if longest < v then v else longest))
        else (m, longest))"

definition lcs_loop :: "jsstring \<Rightarrow> jsstring \<Rightarrow> table \<times> nat" where
  "lcs_loop s1 s2 =
     foldl (\<lambda>st i. foldl (lcs_cell s1 s2 i) st [0..<length s2])
       (replicate (length s1) (replicate (length s2) 0), 0) [0..<length s1]"

definition lcs :: "jsstring \<Rightarrow> jsstring \<Rightarrow> jsnum" where
  "lcs s1 s2 =
     (let longest = snd (lcs_loop s1 s2)
      in if max (length s1) (length s2) \<noteq> 0
         then js_div (of_len longest) (of_len (max (length s1) (length s2)))
         else Fin 0)"

subsection \<open>Weighted blend\<close>

definition compareStrings :: "js_runtime \<Rightarrow> jsstring option \<Rightarrow> jsstring option \<Rightarrow> jsnum" where
  "compareStrings rt a b =
     (if falsy a \<or> falsy b then Fin 0
      else
        (let a = trim (toLowerCase rt (the a));
             b = trim (toLowerCase rt (the b));
             lcsScore = lcs a b;
             confidence =
               js_add (js_add (js_mul (levScore a b) (Fin 0.5)) (js_mul (jaccard a b) (Fin 0.3)))
                      (js_mul lcsScore (Fin 0.2))
         in Math_max (Fin 0) (Math_min (Fin 1) confidence)))"

section \<open>stripDiacritics\<close>

text \<open>\<^verbatim>\<open>s.replace(/[C]/g, r)\<close>: every character of the class is replaced by \<open>r\<close>.\<close>

definition replace_each :: "(jschar \<Rightarrow> bool) \<Rightarrow> jsstring \<Rightarrow> jsstring \<Rightarrow> jsstring" where
  "replace_each cls r s = concat (map (\<lambda>c. if cls c then r else [c]) s)"

text \<open>The class of the code units U+0300 to U+036F, the block of combining diacritical marks.\<close>

definition is_combining_mark :: "jschar \<Rightarrow> bool" where
  "is_combining_mark c \<longleftrightarrow> 768 \<le> c \<and> c \<le> 879"

definition stripDiacritics :: "js_runtime \<Rightarrow> jsstring \<Rightarrow> jsstring" where
  "stripDiacritics rt s = replace_each is_combining_mark [] (normalizeStr rt NFKD s)"

section \<open>sanitizeName\<close>

definition HONORIFICS :: "jsstring list" where
  "HONORIFICS = map str [''mr'', ''mrs'', ''ms'', ''miss'', ''mx'', ''dr'', ''prof'', ''sir'', ''dame'']"

definition SUFFIXES :: "jsstring list" where
  "SUFFIXES = map str [''jr'', ''sr'', ''ii'', ''iii'', ''iv'', ''v'', ''md'', ''phd'', ''esq'']"

text \<open>The class \<^verbatim>\<open>[_.,/\\'"-]\<close> extended by the right single quotation mark U+2019.\<close>

definition is_punct :: "jschar \<Rightarrow> bool" where
  "is_punct c \<longleftrightarrow> c \<in> {95, 46, 44, 47, 92, 39, 8217, 34, 45}"

text \<open>\<^verbatim>\<open>s.replace(/[C]+/g, r)\<close>: every maximal run of characters of the class is
  replaced by one \<open>r\<close>.\<close>

function replace_runs :: "(jschar \<Rightarrow> bool) \<Rightarrow> jsstring \<Rightarrow> jsstring \<Rightarrow> jsstring" where
  "replace_runs cls r [] = []"
| "replace_runs cls r (c # cs) =
     (if cls c then r @ replace_runs cls r (dropWhile cls cs)
      else c # replace_runs cls r cs)"
  by pat_completeness auto
termination
  by (relation "measure (\<lambda>(cls, r, s). length s)")
     (auto simp: less_Suc_eq_le length_dropWhile_le)

text \<open>\<^verbatim>\<open>s.split(' ')\<close>: the pieces between the occurrences of one separator character.\<close>

fun split_char :: "jschar \<Rightarrow> jsstring \<Rightarrow> jsstring list" where
  "split_char sep [] = [[]]"
| "split_char sep (c # cs) =
     (if c = sep then [] # split_char sep cs
      else (case split_char sep cs of [] \<Rightarrow> [[c]] | t # ts \<Rightarrow> (c # t) # ts))"

fun join :: "jsstring \<Rightarrow> jsstring list \<Rightarrow> jsstring" where
  "join sep [] = []"
| "join sep [t] = t"
| "join sep (t # ts) = t @ sep @ join sep ts"

text \<open>\<^verbatim>\<open>while (tokens.length && HONORIFICS.has(tokens[0])) tokens.shift()\<close>\<close>

fun strip_honorifics :: "jsstring list \<Rightarrow> jsstring list" where
  "strip_honorifics [] = []"
| "strip_honorifics (t # ts) =
     (if t \<in> set HONORIFICS then strip_honorifics ts else t # ts)"

text \<open>\<^verbatim>\<open>t.replace(/\.+$/, '')\<close>: the dots at the end of the token are removed.\<close>

definition strip_trailing_dots :: "jsstring \<Rightarrow> jsstring" where
  "strip_trailing_dots t = rev (dropWhile (\<lambda>c. c = 46) (rev t))"

text \<open>\<^verbatim>\<open>while (tokens.length && SUFFIXES.has(last token without dots)) tokens.pop()\<close>\<close>

function strip_suffixes :: "jsstring list \<Rightarrow> jsstring list" where
  "strip_suffixes ts =
     (if ts \<noteq> [] \<and> strip_trailing_dots (last ts) \<in> set SUFFIXES
      then strip_suffixes (butlast ts) else ts)"
  by pat_completeness auto
termination
  by (relation "measure length") auto

declare strip_suffixes.simps [simp del]

text \<open>\<^verbatim>\<open>/^[a-z]$/.test(t)\<close>: the token is one lower-case ASCII letter.\<close>

definition is_initial :: "jsstring \<Rightarrow> bool" where
  "is_initial t \<longleftrightarrow> (case t of [c] \<Rightarrow> 97 \<le> c \<and> c \<le> 122 | _ \<Rightarrow> False)"

text \<open>One round of the collapsing loop on the pair of \<^verbatim>\<open>collapsed\<close> and \<^verbatim>\<open>buffer\<close>.\<close>

definition collapse_step :: "jsstring list \<times> jsstring \<Rightarrow> jsstring \<Rightarrow> jsstring list \<times> jsstring" where
  "collapse_step st t =
     (case st of (collapsed, buffer) \<Rightarrow>
        if is_initial t then (collapsed, buffer @ t)
        else if buffer \<noteq> [] then ((collapsed @ [buffer]) @ [t], [])
        else (collapsed @ [t], []))"

definition collapse :: "jsstring list \<Rightarrow> jsstring list" where
  "collapse tokens =
     (case foldl collapse_step ([], []) tokens of
        (collapsed, buffer) \<Rightarrow> if buffer \<noteq> [] then collapsed @ [buffer] else collapsed)"

text \<open>The token list as it stands after the two stripping loops.\<close>

definition stripped_tokens :: "js_runtime \<Rightarrow> jsstring \<Rightarrow> jsstring list" where
  "stripped_tokens rt s =
     (let x = toLowerCase rt (stripDiacritics rt s);
          x = trim (replace_runs is_space [32] (replace_runs is_punct [32] x));
          tokens = filter_Boolean (split_char 32 x)
      in strip_suffixes (strip_honorifics tokens))"

text \<open>The argument is a string or absent; any other value reaches the function as the
  text \<^verbatim>\<open>String(s)\<close> gives for it.\<close>

definition sanitizeName :: "js_runtime \<Rightarrow> jsstring option \<Rightarrow> jsstring" where
  "sanitizeName rt s =
     (if falsy s then []
      else trim (replace_runs is_space [32] (join [32] (collapse (stripped_tokens rt (the s))))))"

section \<open>structuralBonus\<close>

definition structuralBonus :: "jsstring \<Rightarrow> jsstring \<Rightarrow> jsnum" where
  "structuralBonus aSan bSan =
     (let aT = filter_Boolean (split_char 32 aSan);
          bT = filter_Boolean (split_char 32 bSan)
      in if aT = [] \<or> bT = [] then Fin 0
         else
           (let aLast = last aT;
                bLast = last bT;
                lastMatch = (if aLast \<noteq> [] \<and> bLast \<noteq> [] \<and> aLast = bLast then Fin 0.05 else Fin 0);
                aFirst = hd aT;
                bFirst = hd bT;
                firstInitialMatch =
                  (if aFirst \<noteq> [] \<and> bFirst \<noteq> [] \<and> hd aFirst = hd bFirst then Fin 0.02 else Fin 0)
            in js_add lastMatch firstInitialMatch))"

section \<open>compareNames\<close>

text \<open>The helper the source defines and never calls.\<close>

definition joinSingles :: "jsstring \<Rightarrow> jsstring" where
  "joinSingles s = join [32] (map (\<lambda>t. if length t = 1 then t else t) (split_char 32 s))"

definition variantsA :: "jsstring \<Rightarrow> jsstring list" where
  "variantsA aSan = [aSan]"

definition variantsB :: "jsstring \<Rightarrow> jsstring list" where
  "variantsB bSan = [bSan]"

definition compareNames :: "js_runtime \<Rightarrow> jsstring option \<Rightarrow> jsstring option \<Rightarrow> jsnum" where
  "compareNames rt a b =
     (let aSan = sanitizeName rt a;
          bSan = sanitizeName rt b
      in foldl (\<lambda>best va.
           foldl (\<lambda>best vb.
             (let base = compareStrings rt (Some va) (Some vb);
                  bonus = structuralBonus va vb
              in Math_max best (Math_min (Fin 1) (js_add base bonus))))
             best (variantsB bSan))
           (Fin 0) (variantsA aSan))"

section \<open>A runtime for examples\<close>

text \<open>
  Lower-casing and normalisation as the built-ins perform them on strings whose code
  units are all in U+0000..U+007F or are U+00B2 (superscript two, which only the
  compatibility forms decompose, into the digit 2). It is used at concrete strings of
  that kind only.
\<close>

definition ascii_lower :: "jschar \<Rightarrow> jschar" where
  "ascii_lower c = (if 65 \<le> c \<and> c \<le> 90 then c + 32 else c)"

definition sample_decompose :: "normal_form \<Rightarrow> jschar \<Rightarrow> jsstring" where
  "sample_decompose f c = (if c = 178 \<and> (f = NFKC \<or> f = NFKD) then [50] else [c])"

definition sample_runtime :: js_runtime where
  "sample_runtime =
     \<lparr>toLowerCase = map ascii_lower,
      normalizeStr = (\<lambda>f s. concat (map (sample_decompose f) s))\<rparr>"

section \<open>Notions used to state the properties\<close>

subsection \<open>Names and their tokens\<close>

text \<open>The tokens of a sanitized name: the non-empty pieces between spaces.\<close>

definition name_tokens :: "jsstring \<Rightarrow> jsstring list" where
  "name_tokens s = filter_Boolean (split_char 32 s)"

text \<open>
  The specification's wording of stripDiacritics: canonical decomposition (form NFD),
  then every combining diacritical mark deleted.
\<close>

definition spec_stripDiacritics :: "js_runtime \<Rightarrow> jsstring \<Rightarrow> jsstring" where
  "spec_stripDiacritics rt s = filter (\<lambda>c. \<not> is_combining_mark c) (normalizeStr rt NFD s)"

text \<open>The token list sanitizeName holds after the two stripping loops; none for an
  absent or empty argument.\<close>

definition tokens_before_fusing :: "js_runtime \<Rightarrow> jsstring option \<Rightarrow> jsstring list" where
  "tokens_before_fusing rt s = (if falsy s then [] else stripped_tokens rt (the s))"

subsection \<open>The canonical form of a sanitized name\<close>

text \<open>No two neighbouring characters of the string are both white space.\<close>

fun no_double_space :: "jsstring \<Rightarrow> bool" where
  "no_double_space [] \<longleftrightarrow> True"
| "no_double_space [c] \<longleftrightarrow> True"
| "no_double_space (c # d # cs) \<longleftrightarrow> \<not> (is_space c \<and> is_space d) \<and> no_double_space (d # cs)"

text \<open>The string neither starts nor ends with white space.\<close>

definition no_edge_space :: "jsstring \<Rightarrow> bool" where
  "no_edge_space r \<longleftrightarrow> r = [] \<or> (\<not> is_space (hd r) \<and> \<not> is_space (last r))"

text \<open>No two neighbouring tokens are both a single letter a to z.\<close>

fun no_adjacent_initials :: "jsstring list \<Rightarrow> bool" where
  "no_adjacent_initials [] \<longleftrightarrow> True"
| "no_adjacent_initials [t] \<longleftrightarrow> True"
| "no_adjacent_initials (t # u # ts) \<longleftrightarrow>
     \<not> (is_initial t \<and> is_initial u) \<and> no_adjacent_initials (u # ts)"

text \<open>The collapsing loop, started with a given buffer, as a recursive function.\<close>

fun fuse :: "jsstring \<Rightarrow> jsstring list \<Rightarrow> jsstring list" where
  "fuse b [] = (if b \<noteq> [] then [b] else [])"
| "fuse b (t # ts) =
     (if is_initial t then fuse (b @ t) ts
      else (if b \<noteq> [] then [b, t] else [t]) @ fuse [] ts)"

text \<open>A token as the splitting leaves it: not empty, free of white space and of the
  punctuation that was replaced by spaces.\<close>

definition clean_token :: "jsstring \<Rightarrow> bool" where
  "clean_token t \<longleftrightarrow> t \<noteq> [] \<and> (\<forall>c \<in> set t. \<not> is_space c \<and> \<not> is_punct c)"

subsection \<open>Edit distance\<close>

text \<open>
  The recurrence the table of levenshtein follows, as a function of two lists: the
  distance to or from the empty list is the length of the other one; otherwise the
  least of a deletion, an insertion and a substitution (free when the heads agree).
\<close>

fun lev_rec :: "'a list \<Rightarrow> 'a list \<Rightarrow> nat" where
  "lev_rec [] ys = length ys"
| "lev_rec (x # xs) [] = Suc (length xs)"
| "lev_rec (x # xs) (y # ys) =
     min (min (lev_rec (x # xs) ys + 1) (lev_rec xs (y # ys) + 1))
         (lev_rec xs ys + (if x = y then 0 else 1))"

text \<open>What cell \<open>dp[j][i]\<close> is to hold: the value of the recurrence for the first \<open>i\<close>
  characters of \<open>s1\<close> and the first \<open>j\<close> of \<open>s2\<close>, both read from their last character.\<close>

definition lev_prefix :: "jsstring \<Rightarrow> jsstring \<Rightarrow> nat \<Rightarrow> nat \<Rightarrow> nat" where
  "lev_prefix s1 s2 i j = lev_rec (rev (take i s1)) (rev (take j s2))"

text \<open>A table of the given numbers of rows and columns.\<close>

definition table_shape :: "nat \<Rightarrow> nat \<Rightarrow> table \<Rightarrow> bool" where
  "table_shape rows cols t \<longleftrightarrow> length t = rows \<and> (\<forall>r < rows. length (t ! r) = cols)"

text \<open>The table after the two initialising loops.\<close>

definition lev_init :: "jsstring \<Rightarrow> jsstring \<Rightarrow> table" where
  "lev_init s1 s2 =
     foldl (\<lambda>dp j. tset dp j 0 j)
       (foldl (\<lambda>dp i. tset dp 0 i i)
          (replicate (length s2 + 1) (replicate (length s1 + 1) 0)) [0..<length s1 + 1])
       [0..<length s2 + 1]"

text \<open>The invariants of the two nested loops of levenshtein: rows below \<open>k\<close> are
  filled, and the cells left of column \<open>k\<close> of row \<open>j\<close> are.\<close>

definition lev_rows_done :: "jsstring \<Rightarrow> jsstring \<Rightarrow> nat \<Rightarrow> table \<Rightarrow> bool" where
  "lev_rows_done s1 s2 k dp \<longleftrightarrow>
     table_shape (length s2 + 1) (length s1 + 1) dp \<and>
     (\<forall>j \<le> length s2. tget dp j 0 = j) \<and>
     (\<forall>j < k. \<forall>i \<le> length s1. tget dp j i = lev_prefix s1 s2 i j)"

definition lev_row_part :: "jsstring \<Rightarrow> jsstring \<Rightarrow> nat \<Rightarrow> nat \<Rightarrow> table \<Rightarrow> bool" where
  "lev_row_part s1 s2 j k dp \<longleftrightarrow>
     lev_rows_done s1 s2 j dp \<and> (\<forall>i < k. tget dp j i = lev_prefix s1 s2 i j)"

text \<open>
  The reference definition of the Levenshtein distance: one edit is the insertion,
  the deletion or the substitution of a single character anywhere in the string, and
  the distance from \<open>a\<close> to \<open>b\<close> is the least number of edits that turn \<open>a\<close> into \<open>b\<close>.
\<close>

inductive edit_step :: "'a list \<Rightarrow> 'a list \<Rightarrow> bool" where
  insertion: "edit_step (u @ v) (u @ c # v)"
| deletion: "edit_step (u @ c # v) (u @ v)"
| substitution: "c \<noteq> d \<Longrightarrow> edit_step (u @ c # v) (u @ d # v)"

definition edit_distance :: "'a list \<Rightarrow> 'a list \<Rightarrow> nat" where
  "edit_distance a b = (LEAST n. (edit_step ^^ n) a b)"

subsection \<open>Longest common substring\<close>

text \<open>The number of leading positions at which two lists agree.\<close>

fun common_prefix :: "'a list \<Rightarrow> 'a list \<Rightarrow> nat" where
  "common_prefix (x # xs) (y # ys) = (if x = y then Suc (common_prefix xs ys) else 0)"
| "common_prefix [] ys = 0"
| "common_prefix xs [] = 0"

text \<open>The length of the longest common block of the two strings that ends at index
  \<open>i\<close> of the first and at index \<open>j\<close> of the second.\<close>

definition common_end :: "jsstring \<Rightarrow> jsstring \<Rightarrow> nat \<Rightarrow> nat \<Rightarrow> nat" where
  "common_end s1 s2 i j = common_prefix (rev (take (Suc i) s1)) (rev (take (Suc j) s2))"

text \<open>\<open>n\<close> is the length of the longest block of characters that occurs in both strings.\<close>

definition longest_common :: "jsstring \<Rightarrow> jsstring \<Rightarrow> nat \<Rightarrow> bool" where
  "longest_common s1 s2 n \<longleftrightarrow>
     (\<forall>i < length s1. \<forall>j < length s2. common_end s1 s2 i j \<le> n) \<and>
     (n = 0 \<or> (\<exists>i < length s1. \<exists>j < length s2. common_end s1 s2 i j = n))"

text \<open>Cell \<open>(i', j')\<close> is visited before cell \<open>(i, j)\<close> by the two nested loops of lcs;
  the invariant of the loops on the pair of the table and of \<^verbatim>\<open>longest\<close>.\<close>

definition before :: "nat \<Rightarrow> nat \<Rightarrow> nat \<Rightarrow> nat \<Rightarrow> bool" where
  "before i j i' j' \<longleftrightarrow> i' < i \<or> (i' = i \<and> j' < j)"

definition lcs_done :: "jsstring \<Rightarrow> jsstring \<Rightarrow> nat \<Rightarrow> nat \<Rightarrow> table \<times> nat \<Rightarrow> bool" where
  "lcs_done s1 s2 i j st \<longleftrightarrow>
     table_shape (length s1) (length s2) (fst st) \<and>
     (\<forall>i' < length s1. \<forall>j' < length s2.
        tget (fst st) i' j' = (if before i j i' j' then common_end s1 s2 i' j' else 0)) \<and>
     (\<forall>i' < length s1. \<forall>j' < length s2.
        before i j i' j' \<longrightarrow> common_end s1 s2 i' j' \<le> snd st) \<and>
     (snd st = 0 \<or> (\<exists>i' < length s1. \<exists>j' < length s2.
        before i j i' j' \<and> common_end s1 s2 i' j' = snd st))"

subsection \<open>An assumption on the runtime\<close>

text \<open>
  Lower-casing never turns a string that holds a character other than white space into
  white space only. The lower-casing of the language has this property (it maps letters
  to letters and leaves every other character as it is); it is what keeps the
  comparison of two sanitized names from dividing 0 by 0.
\<close>

definition keeps_visible :: "js_runtime \<Rightarrow> bool" where
  "keeps_visible rt \<longleftrightarrow>
     (\<forall>s. (\<exists>c \<in> set s. \<not> is_space c) \<longrightarrow> (\<exists>c \<in> set (toLowerCase rt s). \<not> is_space c))"

section \<open>Numbers and clamping\<close>

lemma clamp_cases:
  "Math_max (Fin 0) (Math_min (Fin 1) c) = NaN \<or>
   (\<exists>x. Math_max (Fin 0) (Math_min (Fin 1) c) = Fin x \<and> 0 \<le> x \<and> x \<le> 1)"
  by (cases c) auto

lemma compareStrings_cases:
  "compareStrings rt a b = NaN \<or> (\<exists>x. compareStrings rt a b = Fin x \<and> 0 \<le> x \<and> x \<le> 1)"
  unfolding compareStrings_def Let_def using clamp_cases by auto

lemma structuralBonus_cases:
  "structuralBonus a b \<in> {Fin 0, Fin 0.02, Fin 0.05, Fin 0.07}"
  unfolding structuralBonus_def Let_def by simp

lemma clamp_bonus_nonneg:
  assumes "base = NaN \<or> (\<exists>x. base = Fin x \<and> 0 \<le> x \<and> x \<le> 1)"
    and "bonus \<in> {Fin 0, Fin 0.02, Fin 0.05, Fin 0.07}"
  shows "Math_max (Fin 0) (Math_min (Fin 1) (js_add base bonus)) =
         Math_min (Fin 1) (js_add base bonus)"
  using assms by auto

section \<open>Splitting and joining\<close>

lemma filter_Boolean_nonempty: "t \<in> set (filter_Boolean ts) \<Longrightarrow> t \<noteq> []"
  by (simp add: filter_Boolean_def)

lemma split_char_nonempty: "split_char sep s \<noteq> []"
  by (induction s) (auto split: list.splits)

lemma join_Cons_nonempty: "ts \<noteq> [] \<Longrightarrow> join sep (t # ts) = t @ sep @ join sep ts"
  by (cases ts) simp_all

lemma join_split_char: "join [sep] (split_char sep s) = s"
proof (induction s)
  case Nil
  show ?case by simp
next
  case (Cons c cs)
  obtain t ts where ts: "split_char sep cs = t # ts"
    using split_char_nonempty [of sep cs] by (cases "split_char sep cs") auto
  show ?case
  proof (cases "c = sep")
    case True
    then show ?thesis using Cons ts by (simp add: join_Cons_nonempty)
  next
    case False
    then show ?thesis using Cons ts by (cases ts) auto
  qed
qed

lemma joinSingles_id: "joinSingles s = s"
  by (simp add: joinSingles_def join_split_char)

section \<open>The Levenshtein table\<close>

lemma foldl_upt_invariant:
  assumes "P a x"
    and "\<And>k y. a \<le> k \<Longrightarrow> k < b \<Longrightarrow> P k y \<Longrightarrow> P (Suc k) (f y k)"
    and "a \<le> b"
  shows "P b (foldl f x [a..<b])"
  using assms(3,2)
proof (induction b)
  case 0
  then show ?case using assms(1) by simp
next
  case (Suc b)
  show ?case
  proof (cases "a = Suc b")
    case True
    then show ?thesis using assms(1) by simp
  next
    case False
    then have ab: "a \<le> b" using Suc.prems(1) by simp
    have "P b (foldl f x [a..<b])"
      using Suc.IH [OF ab] Suc.prems(2) by simp
    then have "P (Suc b) (f (foldl f x [a..<b]) b)"
      using Suc.prems(2) [of b] ab by simp
    then show ?thesis using ab by simp
  qed
qed

lemma tget_tset:
  "table_shape rows cols t \<Longrightarrow> r < rows \<Longrightarrow> c < cols \<Longrightarrow>
   tget (tset t r c v) r' c' = (if r' = r \<and> c' = c then v else tget t r' c')"
  by (auto simp: table_shape_def tget_def tset_def nth_list_update)

lemma table_shape_tset:
  "table_shape rows cols t \<Longrightarrow> table_shape rows cols (tset t r c v)"
proof (cases "r < length t")
  case True
  assume "table_shape rows cols t"
  then show ?thesis using True
    by (auto simp: table_shape_def tset_def nth_list_update)
next
  case False
  assume "table_shape rows cols t"
  then show ?thesis using False by (simp add: table_shape_def tset_def)
qed

lemma table_shape_replicate: "table_shape rows cols (replicate rows (replicate cols 0))"
  by (simp add: table_shape_def)

lemma lev_rec_Nil2: "lev_rec xs [] = length xs"
  by (cases xs) simp_all

lemma lev_prefix_0_j: "j \<le> length s2 \<Longrightarrow> lev_prefix s1 s2 0 j = j"
  by (simp add: lev_prefix_def)

lemma lev_prefix_i_0: "i \<le> length s1 \<Longrightarrow> lev_prefix s1 s2 i 0 = i"
  by (simp add: lev_prefix_def lev_rec_Nil2)

lemma lev_prefix_Suc:
  "i < length s1 \<Longrightarrow> j < length s2 \<Longrightarrow>
   lev_prefix s1 s2 (Suc i) (Suc j) =
     min (min (lev_prefix s1 s2 (Suc i) j + 1) (lev_prefix s1 s2 i (Suc j) + 1))
         (lev_prefix s1 s2 i j + (if s1 ! i = s2 ! j then 0 else 1))"
  by (simp add: lev_prefix_def take_Suc_conv_app_nth)

lemma lev_prefix_full: "lev_prefix s1 s2 (length s1) (length s2) = lev_rec (rev s1) (rev s2)"
  by (simp add: lev_prefix_def)

lemma lev_init_done: "lev_rows_done s1 s2 1 (lev_init s1 s2)"
proof -
  let ?rows = "length s2 + 1" and ?cols = "length s1 + 1"
  let ?dp0 = "replicate ?rows (replicate ?cols (0::nat))"
  let ?dp1 = "foldl (\<lambda>dp i. tset dp 0 i i) ?dp0 [0..<?cols]"
  have 1: "table_shape ?rows ?cols ?dp1 \<and> (\<forall>i < ?cols. tget ?dp1 0 i = i)"
  proof (rule foldl_upt_invariant
      [where P = "\<lambda>k dp. table_shape ?rows ?cols dp \<and> (\<forall>i < k. tget dp 0 i = i)"])
    show "table_shape ?rows ?cols ?dp0 \<and> (\<forall>i < 0. tget ?dp0 0 i = i)"
      using table_shape_replicate [of ?rows ?cols] by simp
  next
    fix k y
    assume k: "k < ?cols" and inv: "table_shape ?rows ?cols y \<and> (\<forall>i < k. tget y 0 i = i)"
    have "tget (tset y 0 k k) r' c' = (if r' = 0 \<and> c' = k then k else tget y r' c')" for r' c'
      using tget_tset [of ?rows ?cols y 0 k] inv k by simp
    then show "table_shape ?rows ?cols (tset y 0 k k) \<and> (\<forall>i < Suc k. tget (tset y 0 k k) 0 i = i)"
      using inv by (simp add: table_shape_tset)
  qed simp
  have 2: "table_shape ?rows ?cols (lev_init s1 s2) \<and>
           (\<forall>i < ?cols. tget (lev_init s1 s2) 0 i = i) \<and>
           (\<forall>j < ?rows. tget (lev_init s1 s2) j 0 = j)"
    unfolding lev_init_def
  proof (rule foldl_upt_invariant
      [where P = "\<lambda>k dp. table_shape ?rows ?cols dp \<and> (\<forall>i < ?cols. tget dp 0 i = i) \<and>
                          (\<forall>j < k. tget dp j 0 = j)"])
    show "table_shape ?rows ?cols ?dp1 \<and> (\<forall>i < ?cols. tget ?dp1 0 i = i) \<and>
          (\<forall>j < 0. tget ?dp1 j 0 = j)"
      using 1 by simp
  next
    fix k y
    assume k: "k < ?rows" and inv:
       "table_shape ?rows ?cols y \<and> (\<forall>i < ?cols. tget y 0 i = i) \<and> (\<forall>j < k. tget y j 0 = j)"
    have "tget (tset y k 0 k) r' c' = (if r' = k \<and> c' = 0 then k else tget y r' c')" for r' c'
      using tget_tset [of ?rows ?cols y k 0] inv k by simp
    then show "table_shape ?rows ?cols (tset y k 0 k) \<and>
          (\<forall>i < ?cols. tget (tset y k 0 k) 0 i = i) \<and>
          (\<forall>j < Suc k. tget (tset y k 0 k) j 0 = j)"
      using inv by (auto simp: table_shape_tset)
  qed simp
  show ?thesis
    using 2 by (simp add: lev_rows_done_def lev_prefix_i_0 lev_prefix_0_j less_Suc_eq_le)
qed

lemma lev_cell_step:
  assumes inv: "lev_row_part s1 s2 j i dp"
    and j: "1 \<le> j" "j \<le> length s2" and i: "1 \<le> i" "i < length s1 + 1"
  shows "lev_row_part s1 s2 j (Suc i) (lev_cell s1 s2 j dp i)"
proof -
  let ?rows = "length s2 + 1" and ?cols = "length s1 + 1"
  obtain i' j' where ij: "i = Suc i'" "j = Suc j'"
    using i j by (cases i; cases j) auto
  have sh: "table_shape ?rows ?cols dp"
    and col: "\<forall>r \<le> length s2. tget dp r 0 = r"
    and above: "\<forall>r < j. \<forall>c \<le> length s1. tget dp r c = lev_prefix s1 s2 c r"
    and left: "\<forall>c < i. tget dp j c = lev_prefix s1 s2 c j"
    using inv by (simp_all add: lev_row_part_def lev_rows_done_def)
  define v where "v = min (min (tget dp (j - 1) i + 1) (tget dp j (i - 1) + 1))
                (tget dp (j - 1) (i - 1) + (if s1 ! (i - 1) = s2 ! (j - 1) then 0 else 1))"
  have 1: "tget dp (j - 1) i = lev_prefix s1 s2 i j'" using above ij i by simp
  have 2: "tget dp j (i - 1) = lev_prefix s1 s2 i' j" using left ij by simp
  have 3: "tget dp (j - 1) (i - 1) = lev_prefix s1 s2 i' j'" using above ij i by simp
  have "v = min (min (lev_prefix s1 s2 i j' + 1) (lev_prefix s1 s2 i' j + 1))
                (lev_prefix s1 s2 i' j' + (if s1 ! i' = s2 ! j' then 0 else 1))"
    unfolding v_def 1 2 3 using ij by simp
  also have "\<dots> = lev_prefix s1 s2 i j"
    using lev_prefix_Suc [of i' s1 j' s2] i j unfolding ij by simp
  finally have v: "v = lev_prefix s1 s2 i j" .
  have cell: "lev_cell s1 s2 j dp i = tset dp j i v"
    by (simp add: lev_cell_def Let_def v_def)
  have get: "tget (tset dp j i w) r' c' = (if r' = j \<and> c' = i then w else tget dp r' c')"
    for r' c' w
    using tget_tset [OF sh, of j i] i j by simp
  have "table_shape ?rows ?cols (tset dp j i v)"
    using sh by (rule table_shape_tset)
  moreover have "\<forall>r \<le> length s2. tget (tset dp j i v) r 0 = r"
    using col i by (simp add: get)
  moreover have "\<forall>r < j. \<forall>c \<le> length s1. tget (tset dp j i v) r c = lev_prefix s1 s2 c r"
    using above by (simp add: get)
  moreover have "\<forall>c < Suc i. tget (tset dp j i v) j c = lev_prefix s1 s2 c j"
    using left v by (simp add: get less_Suc_eq)
  ultimately show ?thesis
    unfolding cell lev_row_part_def lev_rows_done_def by blast
qed

lemma lev_row_part_full:
  "lev_row_part s1 s2 j (length s1 + 1) dp \<Longrightarrow> lev_rows_done s1 s2 (Suc j) dp"
  unfolding lev_row_part_def lev_rows_done_def
  by (metis Suc_eq_plus1 less_Suc_eq less_Suc_eq_le)

lemma lev_row_loop:
  assumes inv: "lev_rows_done s1 s2 j dp" and j: "1 \<le> j" "j < length s2 + 1"
  shows "lev_rows_done s1 s2 (Suc j) (foldl (lev_cell s1 s2 j) dp [1..<length s1 + 1])"
proof -
  have "lev_row_part s1 s2 j (length s1 + 1) (foldl (lev_cell s1 s2 j) dp [1..<length s1 + 1])"
  proof (rule foldl_upt_invariant [where P = "lev_row_part s1 s2 j"])
    show "lev_row_part s1 s2 j 1 dp"
      using inv j by (simp add: lev_row_part_def lev_rows_done_def lev_prefix_0_j)
  next
    fix k y
    assume "1 \<le> k" "k < length s1 + 1" "lev_row_part s1 s2 j k y"
    then show "lev_row_part s1 s2 j (Suc k) (lev_cell s1 s2 j y k)"
      using lev_cell_step [of s1 s2 j k y] j by simp
  qed simp
  then show ?thesis by (rule lev_row_part_full)
qed

lemma lev_table_init:
  "lev_table s1 s2 =
     foldl (\<lambda>dp j. foldl (lev_cell s1 s2 j) dp [1..<length s1 + 1]) (lev_init s1 s2)
       [1..<length s2 + 1]"
  by (simp add: lev_table_def lev_init_def Let_def)

lemma lev_table_done: "lev_rows_done s1 s2 (length s2 + 1) (lev_table s1 s2)"
  unfolding lev_table_init
proof (rule foldl_upt_invariant [where P = "lev_rows_done s1 s2"])
  show "lev_rows_done s1 s2 1 (lev_init s1 s2)" by (rule lev_init_done)
next
  fix k y
  assume "1 \<le> k" "k < length s2 + 1" "lev_rows_done s1 s2 k y"
  then show "lev_rows_done s1 s2 (Suc k) (foldl (lev_cell s1 s2 k) y [1..<length s1 + 1])"
    by (rule lev_row_loop [rotated 1])
qed simp

lemma levenshtein_lev_rec: "levenshtein s1 s2 = lev_rec (rev s1) (rev s2)"
  using lev_table_done [of s1 s2]
  by (simp add: levenshtein_def lev_rows_done_def lev_prefix_full)

section \<open>Edit distance\<close>

lemma min3_cases:
  "min (min a b) c = a \<or> min (min a b) c = b \<or> min (min a b) c = (c::nat)"
  by (simp add: min_def)

lemma edit_step_Cons: "edit_step a b \<Longrightarrow> edit_step (z # a) (z # b)"
proof (induction rule: edit_step.induct)
  case (insertion u v c)
  show ?case using edit_step.insertion [of "z # u" v c] by simp
next
  case (deletion u c v)
  show ?case using edit_step.deletion [of "z # u" c v] by simp
next
  case (substitution c d u v)
  then show ?case using edit_step.substitution [of c d "z # u" v] by simp
qed

lemma edit_step_rev: "edit_step a b \<Longrightarrow> edit_step (rev a) (rev b)"
proof (induction rule: edit_step.induct)
  case (insertion u v c)
  show ?case using edit_step.insertion [of "rev v" "rev u" c] by simp
next
  case (deletion u c v)
  show ?case using edit_step.deletion [of "rev v" c "rev u"] by simp
next
  case (substitution c d u v)
  then show ?case using edit_step.substitution [of c d "rev v" "rev u"] by simp
qed

lemma edits_Cons: "(edit_step ^^ n) a b \<Longrightarrow> (edit_step ^^ n) (z # a) (z # b)"
proof (induction n arbitrary: b)
  case 0
  then show ?case by simp
next
  case (Suc n)
  from Suc.prems obtain y where y: "(edit_step ^^ n) a y" "edit_step y b"
    by (rule relpowp_Suc_E)
  have 1: "(edit_step ^^ n) (z # a) (z # y)" using y(1) by (rule Suc.IH)
  have 2: "edit_step (z # y) (z # b)" using y(2) by (rule edit_step_Cons)
  from 1 2 show ?case by (rule relpowp_Suc_I)
qed

lemma edits_rev: "(edit_step ^^ n) a b \<Longrightarrow> (edit_step ^^ n) (rev a) (rev b)"
proof (induction n arbitrary: b)
  case 0
  then show ?case by simp
next
  case (Suc n)
  from Suc.prems obtain y where y: "(edit_step ^^ n) a y" "edit_step y b"
    by (rule relpowp_Suc_E)
  have 1: "(edit_step ^^ n) (rev a) (rev y)" using y(1) by (rule Suc.IH)
  have 2: "edit_step (rev y) (rev b)" using y(2) by (rule edit_step_rev)
  from 1 2 show ?case by (rule relpowp_Suc_I)
qed

lemma edits_rev_iff: "(edit_step ^^ n) (rev a) (rev b) \<longleftrightarrow> (edit_step ^^ n) a b"
proof
  assume "(edit_step ^^ n) (rev a) (rev b)"
  then have "(edit_step ^^ n) (rev (rev a)) (rev (rev b))" by (rule edits_rev)
  then show "(edit_step ^^ n) a b" by (simp only: rev_rev_ident)
next
  assume "(edit_step ^^ n) a b"
  then show "(edit_step ^^ n) (rev a) (rev b)" by (rule edits_rev)
qed

lemma edits_insert_all: "(edit_step ^^ length ys) [] ys"
proof (induction ys rule: rev_induct)
  case Nil
  show ?case by simp
next
  case (snoc y ys)
  have "edit_step (ys @ []) (ys @ y # [])" by (rule edit_step.insertion)
  then have "edit_step ys (ys @ [y])" by simp
  with snoc have "(edit_step ^^ Suc (length ys)) [] (ys @ [y])" by (rule relpowp_Suc_I)
  then show ?case by simp
qed

lemma edits_delete_all: "(edit_step ^^ length xs) xs []"
proof (induction xs)
  case Nil
  show ?case by simp
next
  case (Cons x xs)
  have "edit_step ([] @ x # xs) ([] @ xs)" by (rule edit_step.deletion)
  then have "edit_step (x # xs) xs" by simp
  then have "(edit_step ^^ Suc (length xs)) (x # xs) []" using Cons by (rule relpowp_Suc_I2)
  then show ?case by simp
qed

lemma lev_rec_reachable: "(edit_step ^^ lev_rec a b) a b"
proof (induction a b rule: lev_rec.induct)
  case (1 ys)
  show ?case using edits_insert_all by simp
next
  case (2 x xs)
  show ?case using edits_delete_all [of "x # xs"] by simp
next
  case (3 x xs y ys)
  let ?A = "lev_rec (x # xs) ys + 1" and ?B = "lev_rec xs (y # ys) + 1"
  let ?C = "lev_rec xs ys + (if x = y then 0 else 1)"
  have A: "(edit_step ^^ ?A) (x # xs) (y # ys)"
  proof -
    have "edit_step ([] @ ys) ([] @ y # ys)" by (rule edit_step.insertion)
    then have "edit_step ys (y # ys)" by simp
    with 3(1) have "(edit_step ^^ Suc (lev_rec (x # xs) ys)) (x # xs) (y # ys)"
      by (rule relpowp_Suc_I)
    then show ?thesis by simp
  qed
  have B: "(edit_step ^^ ?B) (x # xs) (y # ys)"
  proof -
    have "edit_step ([] @ x # xs) ([] @ xs)" by (rule edit_step.deletion)
    then have "edit_step (x # xs) xs" by simp
    then have "(edit_step ^^ Suc (lev_rec xs (y # ys))) (x # xs) (y # ys)"
      using 3(2) by (rule relpowp_Suc_I2)
    then show ?thesis by simp
  qed
  have C: "(edit_step ^^ ?C) (x # xs) (y # ys)"
  proof (cases "x = y")
    case True
    then show ?thesis using edits_Cons [OF 3(3), of x] by simp
  next
    case False
    then have "edit_step ([] @ x # ys) ([] @ y # ys)" by (rule edit_step.substitution)
    then have "edit_step (x # ys) (y # ys)" by simp
    with edits_Cons [OF 3(3), of x]
    have "(edit_step ^^ Suc (lev_rec xs ys)) (x # xs) (y # ys)"
      by (rule relpowp_Suc_I)
    then show ?thesis using False by simp
  qed
  have "min (min ?A ?B) ?C = ?A \<or> min (min ?A ?B) ?C = ?B \<or> min (min ?A ?B) ?C = ?C"
    by (rule min3_cases)
  then consider (a) "lev_rec (x # xs) (y # ys) = ?A" | (b) "lev_rec (x # xs) (y # ys) = ?B"
    | (c) "lev_rec (x # xs) (y # ys) = ?C"
    unfolding lev_rec.simps by blast
  then show ?case
  proof cases
    case a
    from A show ?thesis by (simp only: a)
  next
    case b
    from B show ?thesis by (simp only: b)
  next
    case c
    from C show ?thesis by (simp only: c)
  qed
qed

lemma lev_rec_Cons1: "lev_rec (x # xs) v \<le> lev_rec xs v + 1"
  by (cases v) (simp_all add: lev_rec_Nil2)

lemma lev_rec_insert_hd: "lev_rec a (c # v) \<le> lev_rec a v + 1"
  by (cases a) simp_all

lemma lev_rec_delete_hd: "lev_rec a v \<le> lev_rec a (c # v) + 1"
proof (induction a)
  case Nil
  show ?case by simp
next
  case (Cons x xs)
  have "lev_rec (x # xs) v \<le> lev_rec xs v + 1" by (rule lev_rec_Cons1)
  then show ?case using Cons by (simp add: min_le_iff_disj)
qed

lemma lev_rec_substitute_hd: "lev_rec a (d # v) \<le> lev_rec a (c # v) + 1"
proof (induction a)
  case Nil
  show ?case by simp
next
  case (Cons x xs)
  then show ?case by (auto simp: min_le_iff_disj)
qed

lemma lev_rec_skip:
  assumes "\<And>a. lev_rec a b \<le> lev_rec a y + 1"
  shows "lev_rec a (z # b) \<le> lev_rec a (z # y) + 1"
proof (induction a)
  case Nil
  show ?case using assms [of "[]"] by simp
next
  case (Cons x xs)
  show ?case using Cons assms [of "x # xs"] assms [of xs] by (auto simp: min_le_iff_disj)
qed

lemma lev_rec_skip_prefix:
  assumes "\<And>a. lev_rec a b \<le> lev_rec a y + 1"
  shows "lev_rec a (u @ b) \<le> lev_rec a (u @ y) + 1"
proof (induction u arbitrary: a)
  case Nil
  show ?case using assms by simp
next
  case (Cons z u)
  show ?case using lev_rec_skip [of "u @ b" "u @ y" a z] Cons by simp
qed

lemma lev_rec_step: "edit_step y b \<Longrightarrow> lev_rec a b \<le> lev_rec a y + 1"
proof (induction rule: edit_step.induct)
  case (insertion u v c)
  show ?case by (rule lev_rec_skip_prefix) (rule lev_rec_insert_hd)
next
  case (deletion u c v)
  show ?case by (rule lev_rec_skip_prefix) (rule lev_rec_delete_hd)
next
  case (substitution c d u v)
  show ?case by (rule lev_rec_skip_prefix) (rule lev_rec_substitute_hd)
qed

lemma lev_rec_refl: "lev_rec a a = 0"
  by (induction a) simp_all

lemma lev_rec_least: "(edit_step ^^ n) a b \<Longrightarrow> lev_rec a b \<le> n"
proof (induction n arbitrary: b)
  case 0
  then show ?case by (simp add: lev_rec_refl)
next
  case (Suc n)
  from Suc.prems obtain y where y: "(edit_step ^^ n) a y" "edit_step y b"
    by (rule relpowp_Suc_E)
  then have "lev_rec a b \<le> lev_rec a y + 1" using lev_rec_step [of y b a] by simp
  then show ?case using Suc.IH [OF y(1)] by simp
qed

lemma lev_rec_edit_distance: "lev_rec a b = edit_distance a b"
  unfolding edit_distance_def
  by (rule Least_equality [symmetric]) (simp_all add: lev_rec_reachable lev_rec_least)

lemma edit_distance_rev: "edit_distance (rev a) (rev b) = edit_distance a b"
  by (simp add: edit_distance_def edits_rev_iff)

lemma levenshtein_edit_distance: "levenshtein a b = edit_distance a b"
  by (simp add: levenshtein_lev_rec lev_rec_edit_distance edit_distance_rev)

lemma edit_step_sym: "edit_step a b \<Longrightarrow> edit_step b a"
  by (induction rule: edit_step.induct) (auto intro: edit_step.intros)

section \<open>The longest common substring table\<close>

lemma common_prefix_Nil2: "common_prefix xs [] = 0"
  by (cases xs) simp_all

lemma common_prefix_sym: "common_prefix xs ys = common_prefix ys xs"
  by (induction xs ys rule: common_prefix.induct) (auto simp: common_prefix_Nil2)

lemma common_end_sym: "common_end s1 s2 i j = common_end s2 s1 j i"
  unfolding common_end_def by (rule common_prefix_sym)

lemma common_end_rec:
  assumes "i < length s1" "j < length s2"
  shows "common_end s1 s2 i j =
     (if s1 ! i = s2 ! j
      then (if i \<noteq> 0 \<and> j \<noteq> 0 then common_end s1 s2 (i - 1) (j - 1) else 0) + 1
      else 0)"
proof -
  have a: "take (Suc i) s1 = take i s1 @ [s1 ! i]" "take (Suc j) s2 = take j s2 @ [s2 ! j]"
    using assms by (simp_all add: take_Suc_conv_app_nth)
  have e: "common_end s1 s2 i j =
      (if s1 ! i = s2 ! j then Suc (common_prefix (rev (take i s1)) (rev (take j s2))) else 0)"
    unfolding common_end_def a by simp
  have "common_prefix (rev (take i s1)) (rev (take j s2)) =
      (if i \<noteq> 0 \<and> j \<noteq> 0 then common_end s1 s2 (i - 1) (j - 1) else 0)"
    by (auto simp: common_end_def common_prefix_Nil2)
  then show ?thesis using e by simp
qed

lemma before_Suc: "before i (Suc j) i' j' \<longleftrightarrow> before i j i' j' \<or> (i' = i \<and> j' = j)"
  by (auto simp: before_def)

lemma before_row_end: "j' < n \<Longrightarrow> before i n i' j' \<longleftrightarrow> before (Suc i) 0 i' j'"
  by (auto simp: before_def)

lemma lcs_cell_step:
  assumes inv: "lcs_done s1 s2 i j st" and i: "i < length s1" and j: "j < length s2"
  shows "lcs_done s1 s2 i (Suc j) (lcs_cell s1 s2 i st j)"
proof -
  obtain m L where st: "st = (m, L)" by (cases st)
  have sh: "table_shape (length s1) (length s2) m"
    and cells: "\<forall>i' < length s1. \<forall>j' < length s2.
        tget m i' j' = (if before i j i' j' then common_end s1 s2 i' j' else 0)"
    and ub: "\<forall>i' < length s1. \<forall>j' < length s2.
        before i j i' j' \<longrightarrow> common_end s1 s2 i' j' \<le> L"
    and att: "L = 0 \<or> (\<exists>i' < length s1. \<exists>j' < length s2.
        before i j i' j' \<and> common_end s1 s2 i' j' = L)"
    using inv by (simp_all add: lcs_done_def st)
  have nb: "\<not> before i j i j" by (simp add: before_def)
  show ?thesis
  proof (cases "s1 ! i = s2 ! j")
    case False
    then have ce: "common_end s1 s2 i j = 0" using common_end_rec [OF i j] by simp
    have cell: "lcs_cell s1 s2 i st j = (m, L)" using False by (simp add: lcs_cell_def st)
    have "tget m i j = 0" using cells i j nb by simp
    then have "\<forall>i' < length s1. \<forall>j' < length s2.
        tget m i' j' = (if before i (Suc j) i' j' then common_end s1 s2 i' j' else 0)"
      using cells ce by (auto simp: before_Suc)
    moreover have "\<forall>i' < length s1. \<forall>j' < length s2.
        before i (Suc j) i' j' \<longrightarrow> common_end s1 s2 i' j' \<le> L"
      using ub ce by (auto simp: before_Suc)
    moreover have "L = 0 \<or> (\<exists>i' < length s1. \<exists>j' < length s2.
        before i (Suc j) i' j' \<and> common_end s1 s2 i' j' = L)"
      using att by (auto simp: before_Suc)
    ultimately show ?thesis unfolding cell lcs_done_def using sh by simp
  next
    case True
    define v where "v = (if i \<noteq> 0 \<and> j \<noteq> 0 then tget m (i - 1) (j - 1) else 0) + 1"
    have "i \<noteq> 0 \<and> j \<noteq> 0 \<Longrightarrow> tget m (i - 1) (j - 1) = common_end s1 s2 (i - 1) (j - 1)"
      using cells i j by (simp add: before_def)
    then have v: "v = common_end s1 s2 i j"
      using common_end_rec [OF i j] True unfolding v_def by auto
    have cell: "lcs_cell s1 s2 i st j = (tset m i j v, if L < v then v else L)"
      using True by (simp add: lcs_cell_def st v_def Let_def)
    have get: "tget (tset m i j w) r' c' = (if r' = i \<and> c' = j then w else tget m r' c')"
      for r' c' w
      using tget_tset [OF sh i j] by simp
    have "table_shape (length s1) (length s2) (tset m i j v)"
      using sh by (rule table_shape_tset)
    moreover have "\<forall>i' < length s1. \<forall>j' < length s2.
        tget (tset m i j v) i' j' = (if before i (Suc j) i' j' then common_end s1 s2 i' j' else 0)"
      using cells v nb by (auto simp: before_Suc get)
    moreover have "\<forall>i' < length s1. \<forall>j' < length s2.
        before i (Suc j) i' j' \<longrightarrow> common_end s1 s2 i' j' \<le> (if L < v then v else L)"
      using ub v by (fastforce simp: before_Suc)
    moreover have "(if L < v then v else L) = 0 \<or> (\<exists>i' < length s1. \<exists>j' < length s2.
        before i (Suc j) i' j' \<and> common_end s1 s2 i' j' = (if L < v then v else L))"
    proof (cases "L < v")
      case True
      have "before i (Suc j) i j \<and> common_end s1 s2 i j = v"
        using v by (simp add: before_Suc)
      then show ?thesis using True i j by auto
    next
      case False
      then show ?thesis using att by (auto simp: before_Suc)
    qed
    ultimately show ?thesis unfolding cell lcs_done_def by simp
  qed
qed

lemma lcs_row_loop:
  assumes inv: "lcs_done s1 s2 i 0 st" and i: "i < length s1"
  shows "lcs_done s1 s2 (Suc i) 0 (foldl (lcs_cell s1 s2 i) st [0..<length s2])"
proof -
  have "lcs_done s1 s2 i (length s2) (foldl (lcs_cell s1 s2 i) st [0..<length s2])"
  proof (rule foldl_upt_invariant [where P = "lcs_done s1 s2 i"])
    show "lcs_done s1 s2 i 0 st" by (rule inv)
  next
    fix k y
    assume "k < length s2" "lcs_done s1 s2 i k y"
    then show "lcs_done s1 s2 i (Suc k) (lcs_cell s1 s2 i y k)"
      using lcs_cell_step [of s1 s2 i k y] i by simp
  qed simp
  moreover have "before i (length s2) i' j' \<longleftrightarrow> before (Suc i) 0 i' j'"
    if "j' < length s2" for i' j'
    using that by (rule before_row_end)
  ultimately show ?thesis
    unfolding lcs_done_def by (metis (no_types, lifting))
qed

lemma lcs_loop_done: "lcs_done s1 s2 (length s1) 0 (lcs_loop s1 s2)"
  unfolding lcs_loop_def
proof (rule foldl_upt_invariant [where P = "\<lambda>i. lcs_done s1 s2 i 0"])
  show "lcs_done s1 s2 0 0 (replicate (length s1) (replicate (length s2) 0), 0)"
    by (simp add: lcs_done_def before_def table_shape_replicate tget_def)
next
  fix k y
  assume "k < length s1" "lcs_done s1 s2 k 0 y"
  then show "lcs_done s1 s2 (Suc k) 0 (foldl (lcs_cell s1 s2 k) y [0..<length s2])"
    by (rule lcs_row_loop [rotated 1])
qed simp

lemma lcs_loop_longest: "longest_common s1 s2 (snd (lcs_loop s1 s2))"
  using lcs_loop_done [of s1 s2]
  unfolding lcs_done_def longest_common_def before_def by auto

lemma longest_common_unique:
  "longest_common s1 s2 n \<Longrightarrow> longest_common s1 s2 n' \<Longrightarrow> n = n'"
  unfolding longest_common_def by (metis le_antisym le_zero_eq)

lemma longest_common_sym: "longest_common s1 s2 n \<Longrightarrow> longest_common s2 s1 n"
  unfolding longest_common_def using common_end_sym by metis

lemma lcs_loop_sym: "snd (lcs_loop s1 s2) = snd (lcs_loop s2 s1)"
  using longest_common_unique [OF lcs_loop_longest longest_common_sym [OF lcs_loop_longest]] .

section \<open>Properties of compareStrings\<close>

text \<open>
  C9: whenever either argument of compareStrings is absent or the empty string, the
  result is exactly 0; this is the first test of the function, taken before any
  table, token set or substring is computed.
\<close>

theorem compareStrings_falsy:
  "falsy a \<or> falsy b \<Longrightarrow> compareStrings rt a b = Fin 0"
  by (simp add: compareStrings_def)

theorem compareStrings_falsy_witness:
  "falsy None \<and> compareStrings sample_runtime None (Some (str ''test'')) = Fin 0"
  using compareStrings_falsy [of None "Some (str ''test'')" sample_runtime]
  by (simp add: falsy_def)

text \<open>
  C1: the result of compareStrings is claimed to lie in [0, 1] for all inputs, also
  for strings of white space only. Two strings of one space each are not empty, so the
  first test lets them pass; both are empty after trimming, the edit-distance score is
  1 - 0/0, and the function returns NaN: the division by the larger length is not
  guarded, unlike the two other sub-scores.
\<close>

theorem compareStrings_blank_NaN:
  "compareStrings sample_runtime (Some (str '' '')) (Some (str '' '')) = NaN"
  by (simp add: compareStrings_def falsy_def str_def sample_runtime_def ascii_lower_def trim_def
      is_space_def levScore_def levenshtein_def lev_table_def tget_def tset_def js_sub_def
      of_len_def jaccard_def tokenize_def filter_Boolean_def js_Set_def lcs_def lcs_loop_def)

section \<open>Properties of stripDiacritics\<close>

lemma replace_each_delete: "replace_each cls [] s = filter (\<lambda>c. \<not> cls c) s"
  by (induction s) (simp_all add: replace_each_def)

text \<open>
  C4, as stated: stripDiacritics is canonical decomposition followed by the deletion of
  the combining diacritical marks. The code asks for the compatibility decomposition
  (NFKD), which also rewrites characters that have no canonical decomposition:
  superscript two (U+00B2, not a letter) becomes the digit 2.
\<close>

theorem stripDiacritics_canonical_counterexample:
  "stripDiacritics sample_runtime [178] \<noteq> spec_stripDiacritics sample_runtime [178]"
  by (simp add: stripDiacritics_def spec_stripDiacritics_def replace_each_def
      sample_runtime_def sample_decompose_def is_combining_mark_def)

text \<open>
  C4, amended: stripDiacritics is the compatibility decomposition (NFKD) of the string
  with every code unit of the block U+0300..U+036F deleted; consequently a string that
  NFKD leaves unchanged and that holds no code unit of that block is returned
  unchanged.
\<close>

theorem stripDiacritics_NFKD:
  "stripDiacritics rt s = filter (\<lambda>c. \<not> is_combining_mark c) (normalizeStr rt NFKD s)
   \<and> (normalizeStr rt NFKD s = s \<and> (\<forall>c \<in> set s. \<not> is_combining_mark c)
        \<longrightarrow> stripDiacritics rt s = s)"
  by (simp add: stripDiacritics_def replace_each_delete)

theorem stripDiacritics_NFKD_witness:
  "normalizeStr sample_runtime NFKD (str ''hello'') = str ''hello''
   \<and> stripDiacritics sample_runtime (str ''hello'') = str ''hello''"
  using stripDiacritics_NFKD [of sample_runtime "str ''hello''"]
  by (simp add: sample_runtime_def sample_decompose_def str_def is_combining_mark_def)

section \<open>Properties of sanitizeName\<close>

lemma collapse_loop_fuse:
  "(case foldl collapse_step (c, b) ts of
      (collapsed, buffer) \<Rightarrow> if buffer \<noteq> [] then collapsed @ [buffer] else collapsed)
   = c @ fuse b ts"
  by (induction ts arbitrary: c b) (simp_all add: collapse_step_def)

lemma collapse_fuse: "collapse ts = fuse [] ts"
  using collapse_loop_fuse [of "[]" "[]" ts] by (simp add: collapse_def)

lemma set_replace_runs:
  "c \<in> set (replace_runs cls r y) \<Longrightarrow> c \<in> set r \<or> (c \<in> set y \<and> \<not> cls c)"
  by (induction cls r y rule: replace_runs.induct) (auto dest: set_dropWhileD split: if_splits)

lemma set_trim: "c \<in> set (trim y) \<Longrightarrow> c \<in> set y"
proof -
  assume "c \<in> set (trim y)"
  then have "c \<in> set (dropWhile is_space (rev (dropWhile is_space y)))"
    by (simp add: trim_def)
  then have "c \<in> set (dropWhile is_space y)"
    using set_dropWhileD by fastforce
  then show ?thesis by (rule set_dropWhileD)
qed

lemma split_char_sets: "\<forall>t \<in> set (split_char sep y). set t \<subseteq> set y \<and> sep \<notin> set t"
proof (induction y)
  case Nil
  show ?case by simp
next
  case (Cons c cs)
  show ?case
  proof (cases "split_char sep cs")
    case Nil
    then show ?thesis by simp
  next
    case (Cons u us)
    then have "set u \<subseteq> set cs \<and> sep \<notin> set u" "\<forall>t \<in> set us. set t \<subseteq> set cs \<and> sep \<notin> set t"
      using Cons.IH by simp_all
    then show ?thesis using Cons Cons.IH by auto
  qed
qed

lemma strip_honorifics_dropWhile:
  "strip_honorifics ts = dropWhile (\<lambda>t. t \<in> set HONORIFICS) ts"
  by (induction ts) simp_all

lemma strip_suffixes_stop:
  "\<not> (ts \<noteq> [] \<and> strip_trailing_dots (last ts) \<in> set SUFFIXES) \<Longrightarrow> strip_suffixes ts = ts"
  by (subst strip_suffixes.simps) auto

lemma strip_suffixes_pop:
  "ts \<noteq> [] \<Longrightarrow> strip_trailing_dots (last ts) \<in> set SUFFIXES \<Longrightarrow>
   strip_suffixes ts = strip_suffixes (butlast ts)"
  by (subst strip_suffixes.simps) simp

lemma strip_suffixes_take: "\<exists>n. strip_suffixes ts = take n ts"
proof (induction ts rule: strip_suffixes.induct)
  case (1 ts)
  show ?case
  proof (cases "ts \<noteq> [] \<and> strip_trailing_dots (last ts) \<in> set SUFFIXES")
    case True
    then obtain n where "strip_suffixes (butlast ts) = take n (butlast ts)"
      using 1 by blast
    then have "strip_suffixes ts = take (min n (length ts - 1)) ts"
      using True by (simp add: strip_suffixes_pop butlast_conv_take min.commute)
    then show ?thesis by blast
  next
    case False
    then have "strip_suffixes ts = take (length ts) ts"
      using strip_suffixes_stop [of ts] by simp
    then show ?thesis by blast
  qed
qed

lemma strip_suffixes_last:
  "strip_suffixes ts \<noteq> [] \<Longrightarrow> strip_trailing_dots (last (strip_suffixes ts)) \<notin> set SUFFIXES"
proof (induction ts rule: strip_suffixes.induct)
  case (1 ts)
  show ?case
  proof (cases "ts \<noteq> [] \<and> strip_trailing_dots (last ts) \<in> set SUFFIXES")
    case True
    then show ?thesis using 1 by (simp add: strip_suffixes_pop)
  next
    case False
    then have "strip_suffixes ts = ts" by (rule strip_suffixes_stop)
    then show ?thesis using False 1(2) by auto
  qed
qed

lemma dropWhile_none: "(\<forall>c \<in> set xs. \<not> P c) \<Longrightarrow> dropWhile P xs = xs"
  by (cases xs) auto

lemma strip_trailing_dots_clean: "46 \<notin> set t \<Longrightarrow> strip_trailing_dots t = t"
proof -
  assume a: "46 \<notin> set t"
  then have "\<forall>c \<in> set (rev t). \<not> c = 46" by auto
  then have "dropWhile (\<lambda>c. c = 46) (rev t) = rev t"
    by (rule dropWhile_none)
  then show ?thesis by (simp add: strip_trailing_dots_def)
qed

lemma stripped_tokens_clean: "t \<in> set (stripped_tokens rt s) \<Longrightarrow> clean_token t"
proof -
  assume a: "t \<in> set (stripped_tokens rt s)"
  define x where "x = trim (replace_runs is_space [32]
       (replace_runs is_punct [32] (toLowerCase rt (stripDiacritics rt s))))"
  have x: "c \<in> set x \<Longrightarrow> c = 32 \<or> (\<not> is_space c \<and> \<not> is_punct c)" for c
    unfolding x_def
    by (auto dest!: set_trim set_replace_runs)
  obtain n where "stripped_tokens rt s = take n (strip_honorifics (filter_Boolean (split_char 32 x)))"
    using strip_suffixes_take by (auto simp: stripped_tokens_def x_def Let_def)
  then have "t \<in> set (filter_Boolean (split_char 32 x))"
    using a by (auto simp: strip_honorifics_dropWhile dest!: in_set_takeD set_dropWhileD)
  then have "t \<noteq> []" "t \<in> set (split_char 32 x)"
    by (auto simp: filter_Boolean_def)
  then show ?thesis
    using split_char_sets [of 32 x] x by (auto simp: clean_token_def)
qed

lemma stripped_tokens_ends:
  assumes "stripped_tokens rt s \<noteq> []"
  shows "hd (stripped_tokens rt s) \<notin> set HONORIFICS \<and> last (stripped_tokens rt s) \<notin> set SUFFIXES"
proof -
  define ts where "ts = filter_Boolean (split_char 32 (trim (replace_runs is_space [32]
       (replace_runs is_punct [32] (toLowerCase rt (stripDiacritics rt s))))))"
  have st: "stripped_tokens rt s = strip_suffixes (strip_honorifics ts)"
    by (simp add: stripped_tokens_def ts_def Let_def)
  obtain n where n: "strip_suffixes (strip_honorifics ts) = take n (strip_honorifics ts)"
    using strip_suffixes_take by blast
  have ne: "strip_honorifics ts \<noteq> []" "0 < n"
    using assms n st by (auto intro: ccontr)
  then have "hd (stripped_tokens rt s) = hd (strip_honorifics ts)"
    using n st by (simp)
  moreover have "hd (strip_honorifics ts) \<notin> set HONORIFICS"
    using ne(1) hd_dropWhile [of "\<lambda>t. t \<in> set HONORIFICS" ts]
    by (simp add: strip_honorifics_dropWhile)
  moreover have "clean_token (last (stripped_tokens rt s))"
    using assms stripped_tokens_clean last_in_set by blast
  then have "46 \<notin> set (last (stripped_tokens rt s))"
    by (auto simp: clean_token_def is_punct_def)
  then have "strip_trailing_dots (last (stripped_tokens rt s)) = last (stripped_tokens rt s)"
    by (rule strip_trailing_dots_clean)
  then have "last (stripped_tokens rt s) \<notin> set SUFFIXES"
    using strip_suffixes_last [of "strip_honorifics ts"] assms st by simp
  ultimately show ?thesis by simp
qed


lemma is_initial_nonempty: "is_initial t \<Longrightarrow> t \<noteq> []"
  by (auto simp: is_initial_def)

lemma fuse_nonempty: "ts \<noteq> [] \<Longrightarrow> fuse b ts \<noteq> []"
proof (induction ts arbitrary: b)
  case Nil
  then show ?case by simp
next
  case (Cons t ts)
  show ?case
  proof (cases "is_initial t")
    case True
    then have "b @ t \<noteq> []" by (auto simp: is_initial_def)
    then show ?thesis using True Cons.IH [of "b @ t"] by (cases ts) auto
  next
    case False
    then show ?thesis by simp
  qed
qed

lemma fuse_clean:
  "b = [] \<or> clean_token b \<Longrightarrow> \<forall>t \<in> set ts. clean_token t \<Longrightarrow>
   \<forall>u \<in> set (fuse b ts). clean_token u"
proof (induction ts arbitrary: b)
  case Nil
  then show ?case by auto
next
  case (Cons t ts)
  have t: "clean_token t" using Cons.prems(2) by simp
  show ?case
  proof (cases "is_initial t")
    case True
    have "clean_token (b @ t)"
      using Cons.prems(1) t by (auto simp: clean_token_def)
    then show ?thesis using True Cons.IH [of "b @ t"] Cons.prems(2) by simp
  next
    case False
    then show ?thesis using Cons.IH [of "[]"] Cons.prems t by auto
  qed
qed

lemma no_adjacent_initials_Cons:
  "\<not> is_initial t \<Longrightarrow> no_adjacent_initials ys \<Longrightarrow> no_adjacent_initials (t # ys)"
  by (cases ys) simp_all

lemma fuse_no_adjacent: "no_adjacent_initials (fuse b ts)"
proof (induction ts arbitrary: b)
  case Nil
  show ?case by simp
next
  case (Cons t ts)
  show ?case
  proof (cases "is_initial t")
    case True
    then show ?thesis using Cons.IH by simp
  next
    case False
    then have "no_adjacent_initials (t # fuse [] ts)"
      using Cons.IH no_adjacent_initials_Cons by blast
    then show ?thesis using False by simp
  qed
qed

lemma fuse_hd:
  assumes "ts \<noteq> []" "hd (fuse [] ts) \<noteq> hd ts"
  shows "2 \<le> length ts \<and> is_initial (ts ! 0) \<and> is_initial (ts ! 1)"
proof -
  obtain t ts' where ts: "ts = t # ts'" using assms(1) by (cases ts) auto
  have t: "is_initial t" using assms(2) ts by (auto split: if_splits)
  then obtain u us where ts': "ts' = u # us"
    using assms(2) ts is_initial_nonempty [of t] by (cases ts') auto
  have "is_initial u" using assms(2) ts ts' t is_initial_nonempty [of t] by (auto split: if_splits)
  then show ?thesis using t ts ts' by simp
qed

lemma fuse_last_gen:
  "ts \<noteq> [] \<Longrightarrow> last (fuse b ts) \<noteq> last ts \<Longrightarrow>
   is_initial (last ts) \<and>
   ((b \<noteq> [] \<and> (\<forall>t \<in> set ts. is_initial t)) \<or>
    (2 \<le> length ts \<and> is_initial (last (butlast ts))))"
proof (induction ts arbitrary: b)
  case Nil
  then show ?case by simp
next
  case (Cons t ts)
  show ?case
  proof (cases ts)
    case Nil
    then show ?thesis using Cons.prems is_initial_nonempty [of t] by (auto split: if_splits)
  next
    case (Cons u us)
    show ?thesis
    proof (cases "is_initial t")
      case True
      then have "last (fuse (b @ t) ts) \<noteq> last ts"
        using Cons.prems Cons by simp
      then have ih: "is_initial (last ts) \<and>
         ((\<forall>t \<in> set ts. is_initial t) \<or> (2 \<le> length ts \<and> is_initial (last (butlast ts))))"
        using Cons.IH [of "b @ t"] Cons by auto
      have "is_initial (last (butlast (t # ts)))"
      proof (cases "\<forall>t \<in> set ts. is_initial t")
        case True
        have "last (butlast (t # ts)) \<in> set (t # ts)"
          using Cons by (metis butlast.simps(2) in_set_butlastD last_in_set list.discI)
        then show ?thesis using True \<open>is_initial t\<close> by auto
      next
        case False
        then have "2 \<le> length ts \<and> is_initial (last (butlast ts))" using ih by blast
        moreover from this have "butlast ts \<noteq> []" by (cases ts) auto
        ultimately show ?thesis using Cons by simp
      qed
      then show ?thesis using ih Cons by simp
    next
      case False
      have ne: "fuse [] ts \<noteq> []" using Cons fuse_nonempty by blast
      then have "last (fuse [] ts) \<noteq> last ts"
        using Cons.prems False Cons by (auto split: if_splits)
      then have ih: "is_initial (last ts) \<and> 2 \<le> length ts \<and> is_initial (last (butlast ts))"
        using Cons.IH [of "[]"] Cons by auto
      moreover from this have "butlast ts \<noteq> []" by (cases ts) auto
      ultimately show ?thesis using Cons by simp
    qed
  qed
qed

lemma fuse_last:
  assumes "ts \<noteq> []" "last (fuse [] ts) \<noteq> last ts"
  shows "2 \<le> length ts \<and> is_initial (last ts) \<and> is_initial (last (butlast ts))"
  using fuse_last_gen [OF assms] by simp


lemma clean_token_hd: "clean_token t \<Longrightarrow> \<exists>c cs. t = c # cs \<and> \<not> is_space c"
  by (cases t) (auto simp: clean_token_def)

lemma clean_token_no_space: "clean_token t \<Longrightarrow> c \<in> set t \<Longrightarrow> \<not> is_space c"
  by (auto simp: clean_token_def)

lemma is_space_32: "is_space 32"
  by (simp add: is_space_def)

lemma join_clean_hd:
  assumes "\<forall>t \<in> set ts. clean_token t" "ts \<noteq> []"
  shows "\<exists>c cs. join [32] ts = c # cs \<and> \<not> is_space c"
proof -
  obtain t us where ts: "ts = t # us" using assms(2) by (cases ts) auto
  then have "clean_token t" using assms(1) by simp
  then obtain c cs where "t = c # cs" "\<not> is_space c"
    using clean_token_hd by blast
  then show ?thesis using ts by (cases us) auto
qed

lemma join_clean_last:
  "\<forall>t \<in> set ts. clean_token t \<Longrightarrow> ts \<noteq> [] \<Longrightarrow> \<not> is_space (last (join [32] ts))"
proof (induction ts rule: induct_list012)
  case 1
  then show ?case by simp
next
  case (2 t)
  then show ?case by (auto simp: clean_token_def)
next
  case (3 t u us)
  obtain c cs where "join [32] (u # us) = c # cs"
    using join_clean_hd [of "u # us"] 3(3) by auto
  then show ?case using 3 by simp
qed

lemma replace_runs_pass:
  "\<forall>c \<in> set t. \<not> cls c \<Longrightarrow> replace_runs cls r (t @ y) = t @ replace_runs cls r y"
  by (induction t) simp_all

lemma replace_runs_join:
  "\<forall>t \<in> set ts. clean_token t \<Longrightarrow> replace_runs is_space [32] (join [32] ts) = join [32] ts"
proof (induction ts rule: induct_list012)
  case 1
  show ?case by simp
next
  case (2 t)
  then have "\<forall>c \<in> set t. \<not> is_space c" by (auto simp: clean_token_def)
  then show ?case using replace_runs_pass [of t is_space "[32]" "[]"] by simp
next
  case (3 t u us)
  have t: "\<forall>c \<in> set t. \<not> is_space c" using 3(3) by (auto simp: clean_token_def)
  obtain c cs where j: "join [32] (u # us) = c # cs" "\<not> is_space c"
    using join_clean_hd [of "u # us"] 3(3) by auto
  have "replace_runs is_space [32] (join [32] (u # us)) = join [32] (u # us)"
    using 3 by simp
  then have "replace_runs is_space [32] (32 # join [32] (u # us)) = 32 # join [32] (u # us)"
    using j by (simp add: is_space_32)
  then show ?case
    using replace_runs_pass [OF t, of "[32]" "32 # join [32] (u # us)"] by simp
qed

lemma trim_join:
  assumes "\<forall>t \<in> set ts. clean_token t"
  shows "trim (join [32] ts) = join [32] ts"
proof (cases "ts = []")
  case True
  then show ?thesis by (simp add: trim_def)
next
  case False
  obtain c cs where j: "join [32] ts = c # cs" "\<not> is_space c"
    using join_clean_hd [OF assms False] by auto
  then have d: "dropWhile is_space (join [32] ts) = join [32] ts" by simp
  have "\<not> is_space (last (join [32] ts))"
    using join_clean_last [OF assms False] .
  then have "\<not> is_space (hd (rev (join [32] ts)))"
    by (simp add: hd_rev)
  moreover have "rev (join [32] ts) \<noteq> []" using j by simp
  ultimately have "dropWhile is_space (rev (join [32] ts)) = rev (join [32] ts)"
    by (cases "rev (join [32] ts)") auto
  then show ?thesis using d by (simp add: trim_def)
qed

lemma split_char_pass:
  "sep \<notin> set t \<Longrightarrow> split_char sep (t @ sep # y) = t # split_char sep y"
  by (induction t) auto

lemma split_char_single: "sep \<notin> set t \<Longrightarrow> split_char sep t = [t]"
  by (induction t) auto

lemma name_tokens_join:
  "\<forall>t \<in> set ts. clean_token t \<Longrightarrow> name_tokens (join [32] ts) = ts"
proof (induction ts rule: induct_list012)
  case 1
  show ?case by (simp add: name_tokens_def filter_Boolean_def)
next
  case (2 t)
  then have "32 \<notin> set t" "t \<noteq> []"
    using is_space_32 by (auto simp: clean_token_def)
  then show ?case by (simp add: name_tokens_def filter_Boolean_def split_char_single)
next
  case (3 t u us)
  have t: "32 \<notin> set t" "t \<noteq> []"
    using 3(3) is_space_32 by (auto simp: clean_token_def)
  have "name_tokens (join [32] (u # us)) = u # us" using 3 by simp
  then show ?case
    using t split_char_pass [of 32 t "join [32] (u # us)"]
    by (simp add: name_tokens_def filter_Boolean_def)
qed

lemma no_double_space_pass:
  "\<forall>c \<in> set t. \<not> is_space c \<Longrightarrow> t \<noteq> [] \<Longrightarrow> no_double_space (t @ y) = no_double_space y"
proof (induction t rule: no_double_space.induct)
  case 1
  then show ?case by simp
next
  case (2 c)
  then show ?case by (cases y) simp_all
next
  case (3 c d cs)
  then show ?case by simp
qed

lemma no_double_space_join:
  "\<forall>t \<in> set ts. clean_token t \<Longrightarrow> no_double_space (join [32] ts)"
proof (induction ts rule: induct_list012)
  case 1
  show ?case by simp
next
  case (2 t)
  then have "\<forall>c \<in> set t. \<not> is_space c" "t \<noteq> []" by (auto simp: clean_token_def)
  then show ?case using no_double_space_pass [of t "[]"] by simp
next
  case (3 t u us)
  have t: "\<forall>c \<in> set t. \<not> is_space c" "t \<noteq> []" using 3(3) by (auto simp: clean_token_def)
  obtain c cs where j: "join [32] (u # us) = c # cs" "\<not> is_space c"
    using join_clean_hd [of "u # us"] 3(3) by auto
  have "no_double_space (join [32] (u # us))" using 3 by simp
  then have "no_double_space (32 # join [32] (u # us))" using j by simp
  then show ?case using no_double_space_pass [OF t, of "32 # join [32] (u # us)"] by simp
qed

lemma no_edge_space_join:
  assumes "\<forall>t \<in> set ts. clean_token t"
  shows "no_edge_space (join [32] ts)"
proof (cases "ts = []")
  case True
  then show ?thesis by (simp add: no_edge_space_def)
next
  case False
  obtain c cs where j: "join [32] ts = c # cs" "\<not> is_space c"
    using join_clean_hd [OF assms False] by auto
  then show ?thesis
    using join_clean_last [OF assms False] by (simp add: no_edge_space_def)
qed

lemma sanitizeName_join:
  "sanitizeName rt s = join [32] (collapse (tokens_before_fusing rt s))
   \<and> (\<forall>t \<in> set (collapse (tokens_before_fusing rt s)). clean_token t)"
proof -
  have c: "\<forall>t \<in> set (collapse (tokens_before_fusing rt s)). clean_token t"
    using fuse_clean [of "[]" "tokens_before_fusing rt s"] stripped_tokens_clean
    by (auto simp: collapse_fuse tokens_before_fusing_def)
  show ?thesis
  proof (cases "falsy s")
    case True
    then show ?thesis
      by (simp add: sanitizeName_def tokens_before_fusing_def collapse_def)
  next
    case False
    then show ?thesis
      using c replace_runs_join [OF c] trim_join [OF c]
      by (simp add: sanitizeName_def tokens_before_fusing_def)
  qed
qed

text \<open>
  C2, amended: the string sanitizeName returns has no leading, trailing or double white
  space, and no two consecutive tokens of it are single letters a to z. Its tokens are
  the fused form of the token list left by the two stripping loops; of that list the
  first token is no honorific and the last is no suffix. In the returned string the
  first token can be an honorific, or the last a suffix, only when the list before
  fusing starts, respectively ends, with two single-letter tokens, so that the token
  was produced by fusing.
\<close>

theorem sanitizeName_canonical:
  "no_edge_space (sanitizeName rt s) \<and> no_double_space (sanitizeName rt s)
   \<and> name_tokens (sanitizeName rt s) = collapse (tokens_before_fusing rt s)
   \<and> no_adjacent_initials (name_tokens (sanitizeName rt s))
   \<and> (tokens_before_fusing rt s \<noteq> [] \<longrightarrow>
        hd (tokens_before_fusing rt s) \<notin> set HONORIFICS \<and>
        last (tokens_before_fusing rt s) \<notin> set SUFFIXES)
   \<and> (name_tokens (sanitizeName rt s) \<noteq> [] \<and>
        hd (name_tokens (sanitizeName rt s)) \<in> set HONORIFICS \<longrightarrow>
        2 \<le> length (tokens_before_fusing rt s) \<and>
        is_initial (tokens_before_fusing rt s ! 0) \<and>
        is_initial (tokens_before_fusing rt s ! 1))
   \<and> (name_tokens (sanitizeName rt s) \<noteq> [] \<and>
        last (name_tokens (sanitizeName rt s)) \<in> set SUFFIXES \<longrightarrow>
        2 \<le> length (tokens_before_fusing rt s) \<and>
        is_initial (last (tokens_before_fusing rt s)) \<and>
        is_initial (last (butlast (tokens_before_fusing rt s))))"
proof -
  define st where "st = tokens_before_fusing rt s"
  define r where "r = sanitizeName rt s"
  have r: "r = join [32] (collapse st)" and c: "\<forall>t \<in> set (collapse st). clean_token t"
    using sanitizeName_join [of rt s] by (simp_all add: st_def r_def)
  have out: "name_tokens r = collapse st"
    using name_tokens_join [OF c] r by simp
  have ends: "st \<noteq> [] \<longrightarrow> hd st \<notin> set HONORIFICS \<and> last st \<notin> set SUFFIXES"
    using stripped_tokens_ends [of rt "the s"]
    by (auto simp: st_def tokens_before_fusing_def)
  have st_ne: "collapse st \<noteq> [] \<Longrightarrow> st \<noteq> []"
    by (auto simp: collapse_fuse)
  have h: "collapse st \<noteq> [] \<and> hd (collapse st) \<in> set HONORIFICS \<longrightarrow>
           2 \<le> length st \<and> is_initial (st ! 0) \<and> is_initial (st ! 1)"
    using fuse_hd [of st] ends st_ne by (metis collapse_fuse)
  have l: "collapse st \<noteq> [] \<and> last (collapse st) \<in> set SUFFIXES \<longrightarrow>
           2 \<le> length st \<and> is_initial (last st) \<and> is_initial (last (butlast st))"
    using fuse_last [of st] ends st_ne by (metis collapse_fuse)
  have "no_edge_space r" "no_double_space r"
    using no_edge_space_join [OF c] no_double_space_join [OF c] r by simp_all
  moreover have "no_adjacent_initials (name_tokens r)"
    using fuse_no_adjacent [of "[]" st] out by (simp add: collapse_fuse)
  ultimately show ?thesis
    using out ends h l unfolding st_def r_def by simp
qed


lemmas name_eval = str_def sample_runtime_def sample_decompose_def ascii_lower_def
  stripDiacritics_def replace_each_def is_combining_mark_def
  sanitizeName_def stripped_tokens_def falsy_def trim_def is_space_def is_punct_def
  filter_Boolean_def HONORIFICS_def SUFFIXES_def strip_suffixes.simps strip_trailing_dots_def
  collapse_def collapse_step_def is_initial_def name_tokens_def

text \<open>
  C2, as stated: the first token of the returned string is never an honorific and the
  last never a suffix. Stripping runs before the single letters are fused, so fusing
  can spell one: "M R Smith" gives "mr smith" and "John J R" gives "john jr".
\<close>

theorem sanitizeName_fused_counterexample:
  "sanitizeName sample_runtime (Some (str ''M R Smith'')) = str ''mr smith''
   \<and> hd (name_tokens (str ''mr smith'')) \<in> set HONORIFICS
   \<and> sanitizeName sample_runtime (Some (str ''John J R'')) = str ''john jr''
   \<and> last (name_tokens (str ''john jr'')) \<in> set SUFFIXES"
  by (simp add: name_eval)

theorem sanitizeName_canonical_witness:
  "name_tokens (sanitizeName sample_runtime (Some (str ''Dr. M R Smith''))) \<noteq> []
   \<and> hd (name_tokens (sanitizeName sample_runtime (Some (str ''Dr. M R Smith''))))
        \<in> set HONORIFICS
   \<and> tokens_before_fusing sample_runtime (Some (str ''Dr. M R Smith'')) \<noteq> []
   \<and> hd (tokens_before_fusing sample_runtime (Some (str ''Dr. M R Smith''))) \<notin> set HONORIFICS
   \<and> is_initial (tokens_before_fusing sample_runtime (Some (str ''Dr. M R Smith'')) ! 1)"
proof -
  have "name_tokens (sanitizeName sample_runtime (Some (str ''Dr. M R Smith''))) \<noteq> []
   \<and> hd (name_tokens (sanitizeName sample_runtime (Some (str ''Dr. M R Smith''))))
        \<in> set HONORIFICS"
    by (simp add: name_eval)
  then show ?thesis
    using sanitizeName_canonical [of sample_runtime "Some (str ''Dr. M R Smith'')"]
    by fastforce
qed

section \<open>The three sub-scores: range and symmetry\<close>

lemma js_div_len: "d \<noteq> 0 \<Longrightarrow> js_div (of_len n) (of_len d) = Fin (real n / real d)"
  by (simp add: of_len_def)

lemma ratio_unit: "n \<le> d \<Longrightarrow> d \<noteq> 0 \<Longrightarrow> 0 \<le> real n / real d \<and> real n / real d \<le> 1"
  by (simp add: divide_le_eq_1)

lemma js_div_len_unit:
  assumes "n \<le> d" "d \<noteq> 0"
  shows "\<exists>x. js_div (of_len n) (of_len d) = Fin x \<and> 0 \<le> x \<and> x \<le> 1"
  unfolding js_div_len [OF assms(2)] using ratio_unit [OF assms] by blast

lemma levScore_finite:
  "a \<noteq> [] \<or> b \<noteq> [] \<Longrightarrow>
   levScore a b = Fin (1 - real (levenshtein a b) / real (max (length a) (length b)))"
  by (auto simp: levScore_def js_sub_def of_len_def)

lemma lev_rec_sym: "lev_rec a b = lev_rec b a"
  by (induction a b rule: lev_rec.induct) (simp_all add: lev_rec_Nil2 min.commute min.left_commute eq_commute)

lemma levenshtein_sym: "levenshtein a b = levenshtein b a"
  using lev_rec_sym [of "rev a" "rev b"] by (simp add: levenshtein_lev_rec)

lemma levenshtein_refl: "levenshtein a a = 0"
  by (simp add: levenshtein_lev_rec lev_rec_refl)

lemma levScore_sym: "levScore a b = levScore b a"
  by (simp add: levScore_def levenshtein_sym max.commute)

lemma js_Set_loop:
  "set (foldl (\<lambda>acc x. if x \<in> set acc then acc else acc @ [x]) acc xs) = set acc \<union> set xs
   \<and> (distinct acc \<longrightarrow> distinct (foldl (\<lambda>acc x. if x \<in> set acc then acc else acc @ [x]) acc xs))"
  by (induction xs arbitrary: acc) auto

lemma set_js_Set: "set (js_Set xs) = set xs"
  using js_Set_loop [of "[]" xs] by (simp add: js_Set_def)

lemma distinct_js_Set: "distinct (js_Set xs)"
  using js_Set_loop [of "[]" xs] by (simp add: js_Set_def)

lemma length_js_Set: "length (js_Set xs) = card (set xs)"
  using distinct_card [OF distinct_js_Set, of xs] by (simp add: set_js_Set)

lemma jaccard_card:
  "jaccard a b =
     (if card (set (tokenize a) \<union> set (tokenize b)) \<noteq> 0
      then js_div (of_len (card (set (tokenize a) \<inter> set (tokenize b))))
                  (of_len (card (set (tokenize a) \<union> set (tokenize b))))
      else Fin 0)"
proof -
  have "length (filter (\<lambda>x. x \<in> set (js_Set (tokenize b))) (js_Set (tokenize a)))
        = card (set (tokenize a) \<inter> set (tokenize b))"
    using distinct_length_filter [OF distinct_js_Set, of "\<lambda>x. x \<in> set (tokenize b)" "tokenize a"]
    by (simp add: set_js_Set Int_commute Collect_mem_eq)
  then show ?thesis
    by (simp add: jaccard_def Let_def length_js_Set set_js_Set)
qed

lemma jaccard_sym: "jaccard a b = jaccard b a"
  by (simp add: jaccard_card Int_commute Un_commute)

lemma jaccard_finite: "\<exists>x. jaccard a b = Fin x \<and> 0 \<le> x \<and> x \<le> 1"
proof (cases "card (set (tokenize a) \<union> set (tokenize b)) = 0")
  case True
  then show ?thesis by (simp add: jaccard_card)
next
  case False
  have "card (set (tokenize a) \<inter> set (tokenize b)) \<le> card (set (tokenize a) \<union> set (tokenize b))"
    by (rule card_mono) auto
  then have "\<exists>x. js_div (of_len (card (set (tokenize a) \<inter> set (tokenize b))))
                  (of_len (card (set (tokenize a) \<union> set (tokenize b)))) = Fin x \<and> 0 \<le> x \<and> x \<le> 1"
    using False by (rule js_div_len_unit)
  moreover have "jaccard a b = js_div (of_len (card (set (tokenize a) \<inter> set (tokenize b))))
                  (of_len (card (set (tokenize a) \<union> set (tokenize b))))"
    using False by (simp add: jaccard_card)
  ultimately show ?thesis by (simp only:)
qed

lemma jaccard_self: "tokenize a \<noteq> [] \<Longrightarrow> jaccard a a = Fin 1"
proof -
  assume "tokenize a \<noteq> []"
  then have "card (set (tokenize a)) \<noteq> 0" by (simp add: card_eq_0_iff)
  then show ?thesis by (simp add: jaccard_card js_div_len)
qed

lemma jaccard_no_tokens: "tokenize a = [] \<Longrightarrow> jaccard a a = Fin 0"
  by (simp add: jaccard_card)

lemma lcs_sym: "lcs a b = lcs b a"
  by (simp add: lcs_def lcs_loop_sym [of a b] max.commute Let_def)

lemma common_end_le: "common_end s1 s2 i j \<le> Suc (min i j)"
proof -
  have "common_prefix xs ys \<le> min (length xs) (length ys)" for xs ys :: jsstring
    by (induction xs ys rule: common_prefix.induct) auto
  from this [of "rev (take (Suc i) s1)" "rev (take (Suc j) s2)"]
  show ?thesis by (simp add: common_end_def) arith
qed

lemma common_prefix_self: "common_prefix xs xs = length xs"
  by (induction xs) simp_all

lemma lcs_loop_le: "snd (lcs_loop a b) \<le> min (length a) (length b)"
proof -
  have "snd (lcs_loop a b) = 0 \<or> (\<exists>i < length a. \<exists>j < length b.
          common_end a b i j = snd (lcs_loop a b))"
    using lcs_loop_longest [of a b] by (simp add: longest_common_def)
  then show ?thesis
  proof
    assume "snd (lcs_loop a b) = 0"
    then show ?thesis by simp
  next
    assume "\<exists>i < length a. \<exists>j < length b. common_end a b i j = snd (lcs_loop a b)"
    then obtain i j where "i < length a" "j < length b" "common_end a b i j = snd (lcs_loop a b)"
      by blast
    then show ?thesis using common_end_le [of a b i j] by simp arith
  qed
qed

lemma lcs_loop_self: "snd (lcs_loop a a) = length a"
proof (cases a)
  case Nil
  then show ?thesis using lcs_loop_le [of a a] by simp
next
  case (Cons c cs)
  then have "length a - 1 < length a" by simp
  then have "common_end a a (length a - 1) (length a - 1) \<le> snd (lcs_loop a a)"
    using lcs_loop_longest [of a a] unfolding longest_common_def by blast
  moreover have "common_end a a (length a - 1) (length a - 1) = length a"
    using Cons by (simp add: common_end_def common_prefix_self)
  ultimately show ?thesis using lcs_loop_le [of a a] by simp
qed

lemma lcs_finite: "\<exists>x. lcs a b = Fin x \<and> 0 \<le> x \<and> x \<le> 1"
proof (cases "max (length a) (length b) = 0")
  case True
  then show ?thesis by (simp add: lcs_def)
next
  case False
  have "snd (lcs_loop a b) \<le> max (length a) (length b)"
    using lcs_loop_le [of a b] by arith
  then have "\<exists>x. js_div (of_len (snd (lcs_loop a b))) (of_len (max (length a) (length b))) = Fin x
      \<and> 0 \<le> x \<and> x \<le> 1"
    using False by (rule js_div_len_unit)
  moreover have "lcs a b = js_div (of_len (snd (lcs_loop a b))) (of_len (max (length a) (length b)))"
    using False by (simp add: lcs_def Let_def)
  ultimately show ?thesis by (simp only:)
qed

lemma lcs_self: "a \<noteq> [] \<Longrightarrow> lcs a a = Fin 1"
  by (simp add: lcs_def lcs_loop_self js_div_len)


lemma filter_dropWhile_not: "filter (\<lambda>c. \<not> P c) (dropWhile P cs) = filter (\<lambda>c. \<not> P c) cs"
  by (induction cs) simp_all

lemma concat_split_re: "concat (split_re sep s) = filter (\<lambda>c. \<not> sep c) s"
proof (induction sep s rule: split_re.induct)
  case (1 sep)
  show ?case by simp
next
  case (2 sep c cs)
  show ?case
  proof (cases "sep c")
    case True
    then show ?thesis using 2(1) by (simp add: filter_dropWhile_not)
  next
    case False
    then show ?thesis using 2(2) by (cases "split_re sep cs") auto
  qed
qed

lemma concat_filter_Boolean: "concat (filter_Boolean ts) = concat ts"
  by (induction ts) (simp_all add: filter_Boolean_def)

lemma concat_tokenize: "concat (tokenize s) = filter is_word s"
  by (simp add: tokenize_def concat_filter_Boolean concat_split_re is_nonword_def)

lemma tokenize_empty_iff: "tokenize s = [] \<longleftrightarrow> (\<forall>c \<in> set s. \<not> is_word c)"
proof
  assume "tokenize s = []"
  then have "filter is_word s = []" using concat_tokenize [of s] by simp
  then show "\<forall>c \<in> set s. \<not> is_word c" by (simp add: filter_empty_conv)
next
  assume "\<forall>c \<in> set s. \<not> is_word c"
  then have "concat (tokenize s) = []" by (simp add: concat_tokenize filter_empty_conv)
  then have "\<forall>t \<in> set (tokenize s). t = []" by simp
  moreover have "\<forall>t \<in> set (tokenize s). t \<noteq> []"
    by (simp add: tokenize_def filter_Boolean_def)
  ultimately show "tokenize s = []" by (cases "tokenize s") auto
qed

lemma in_set_dropWhile: "c \<in> set s \<Longrightarrow> \<not> P c \<Longrightarrow> c \<in> set (dropWhile P s)"
  by (induction s) auto

lemma in_set_trim: "c \<in> set s \<Longrightarrow> \<not> is_space c \<Longrightarrow> c \<in> set (trim s)"
  by (simp add: trim_def in_set_dropWhile)

lemma blend_finite:
  assumes "levScore a b = Fin l"
  shows "\<exists>x. Math_max (Fin 0) (Math_min (Fin 1)
           (js_add (js_add (js_mul (levScore a b) (Fin 0.5)) (js_mul (jaccard a b) (Fin 0.3)))
                   (js_mul (lcs a b) (Fin 0.2)))) = Fin x \<and> 0 \<le> x \<and> x \<le> 1"
proof -
  obtain j where j: "jaccard a b = Fin j" using jaccard_finite by blast
  obtain c where c: "lcs a b = Fin c" using lcs_finite by blast
  show ?thesis by (simp add: assms j c)
qed

lemma compareStrings_finite:
  assumes "falsy a \<or> falsy b \<or> trim (toLowerCase rt (the a)) \<noteq> []
           \<or> trim (toLowerCase rt (the b)) \<noteq> []"
  shows "\<exists>x. compareStrings rt a b = Fin x \<and> 0 \<le> x \<and> x \<le> 1"
proof (cases "falsy a \<or> falsy b")
  case True
  then show ?thesis by (simp add: compareStrings_def)
next
  case False
  then have "trim (toLowerCase rt (the a)) \<noteq> [] \<or> trim (toLowerCase rt (the b)) \<noteq> []"
    using assms by blast
  then have "\<exists>l. levScore (trim (toLowerCase rt (the a))) (trim (toLowerCase rt (the b))) = Fin l"
    using levScore_finite by blast
  then obtain l where
    "levScore (trim (toLowerCase rt (the a))) (trim (toLowerCase rt (the b))) = Fin l" ..
  from blend_finite [OF this] show ?thesis
    using False by (simp add: compareStrings_def Let_def)
qed

lemma compareStrings_sym: "compareStrings rt a b = compareStrings rt b a"
  by (simp add: compareStrings_def Let_def levScore_sym [of "trim (toLowerCase rt (the a))"]
      jaccard_sym [of "trim (toLowerCase rt (the a))"] lcs_sym [of "trim (toLowerCase rt (the a))"]
      disj_commute)

lemma structuralBonus_sym: "structuralBonus a b = structuralBonus b a"
  by (auto simp: structuralBonus_def Let_def)

lemma structuralBonus_nonneg: "\<exists>z. structuralBonus a b = Fin z \<and> 0 \<le> z"
proof -
  have "(0::real) \<le> 0" "(0::real) \<le> 0.02" "(0::real) \<le> 0.05" "(0::real) \<le> 0.07"
    by simp_all
  then show ?thesis using structuralBonus_cases [of a b] by blast
qed

lemma compareNames_min:
  "compareNames rt a b =
     Math_min (Fin 1)
       (js_add (compareStrings rt (Some (sanitizeName rt a)) (Some (sanitizeName rt b)))
               (structuralBonus (sanitizeName rt a) (sanitizeName rt b)))"
  using clamp_bonus_nonneg [OF compareStrings_cases structuralBonus_cases]
  by (simp add: compareNames_def variantsA_def variantsB_def Let_def)

lemma sanitizeName_visible:
  "sanitizeName rt s \<noteq> [] \<Longrightarrow> \<exists>c \<in> set (sanitizeName rt s). \<not> is_space c"
proof -
  assume ne: "sanitizeName rt s \<noteq> []"
  have j: "sanitizeName rt s = join [32] (collapse (tokens_before_fusing rt s))"
    and c: "\<forall>t \<in> set (collapse (tokens_before_fusing rt s)). clean_token t"
    using sanitizeName_join [of rt s] by simp_all
  have "collapse (tokens_before_fusing rt s) \<noteq> []" using ne j by auto
  from join_clean_hd [OF c this] show ?thesis using j by auto
qed

lemma compareStrings_sanitized:
  assumes "keeps_visible rt"
  shows "\<exists>x. compareStrings rt (Some (sanitizeName rt a)) (Some (sanitizeName rt b)) = Fin x
           \<and> 0 \<le> x \<and> x \<le> 1"
proof (rule compareStrings_finite)
  show "falsy (Some (sanitizeName rt a)) \<or> falsy (Some (sanitizeName rt b))
        \<or> trim (toLowerCase rt (the (Some (sanitizeName rt a)))) \<noteq> []
        \<or> trim (toLowerCase rt (the (Some (sanitizeName rt b)))) \<noteq> []"
  proof (cases "sanitizeName rt a = []")
    case True
    then show ?thesis by (simp add: falsy_def)
  next
    case False
    then obtain c where "c \<in> set (toLowerCase rt (sanitizeName rt a))" "\<not> is_space c"
      using sanitizeName_visible [of rt a] assms unfolding keeps_visible_def by blast
    then have "c \<in> set (trim (toLowerCase rt (sanitizeName rt a)))" by (rule in_set_trim)
    then show ?thesis by auto
  qed
qed

lemma compareNames_finite:
  assumes "keeps_visible rt"
  shows "\<exists>x y. compareStrings rt (Some (sanitizeName rt a)) (Some (sanitizeName rt b)) = Fin x
           \<and> compareNames rt a b = Fin y \<and> 0 \<le> x \<and> x \<le> y \<and> y \<le> 1"
proof -
  obtain x where x: "compareStrings rt (Some (sanitizeName rt a)) (Some (sanitizeName rt b)) = Fin x"
      "0 \<le> x" "x \<le> 1"
    using compareStrings_sanitized [OF assms] by blast
  obtain z where z: "structuralBonus (sanitizeName rt a) (sanitizeName rt b) = Fin z" "0 \<le> z"
    using structuralBonus_nonneg by blast
  have "compareNames rt a b = Fin (min 1 (x + z))"
    by (simp add: compareNames_min x z)
  then show ?thesis using x z by auto
qed

lemma sample_keeps_visible: "keeps_visible sample_runtime"
proof -
  have "\<not> is_space c \<Longrightarrow> \<not> is_space (ascii_lower c)" for c
    by (auto simp: ascii_lower_def is_space_def)
  then show ?thesis
    by (auto simp: keeps_visible_def sample_runtime_def)
qed

section \<open>Further properties of compareStrings\<close>

lemma compareStrings_self_value:
  assumes "s \<noteq> []" "trim (toLowerCase rt s) \<noteq> []"
  shows "compareStrings rt (Some s) (Some s) =
           (if \<exists>c \<in> set (trim (toLowerCase rt s)). is_word c then Fin 1 else Fin 0.7)"
proof -
  define n where "n = trim (toLowerCase rt s)"
  have n: "n \<noteq> []" using assms(2) by (simp add: n_def)
  have l: "levScore n n = Fin 1" using n by (simp add: levScore_finite levenshtein_refl)
  have c: "lcs n n = Fin 1" using n by (rule lcs_self)
  have j: "jaccard n n = (if \<exists>c \<in> set n. is_word c then Fin 1 else Fin 0)"
    using jaccard_self [of n] jaccard_no_tokens [of n] tokenize_empty_iff [of n] by auto
  have "compareStrings rt (Some s) (Some s) =
      Math_max (Fin 0) (Math_min (Fin 1)
        (js_add (js_add (js_mul (levScore n n) (Fin 0.5)) (js_mul (jaccard n n) (Fin 0.3)))
                (js_mul (lcs n n) (Fin 0.2))))"
    using assms(1) by (simp add: compareStrings_def falsy_def Let_def n_def)
  also have "\<dots> = (if \<exists>c \<in> set n. is_word c then Fin 1 else Fin 0.7)"
    by (simp add: l c j)
  finally show ?thesis unfolding n_def .
qed

text \<open>
  C3, as stated: compareStrings(x, x) is 1 for every string x that is not empty after
  lower-casing and trimming. A string with no word character has an empty token set,
  for which the Jaccard score is 0 by the guard on the union: "!" compared with itself
  gives 0.5 + 0 + 0.2 = 0.7.
\<close>

theorem compareStrings_self_counterexample:
  "trim (toLowerCase sample_runtime (str ''!'')) = str ''!''
   \<and> str ''!'' \<noteq> []
   \<and> compareStrings sample_runtime (Some (str ''!'')) (Some (str ''!'')) = Fin 0.7
   \<and> compareStrings sample_runtime (Some (str ''!'')) (Some (str ''!'')) \<noteq> Fin 1"
proof -
  have n: "trim (toLowerCase sample_runtime (str ''!'')) = str ''!''"
    by (simp add: sample_runtime_def ascii_lower_def str_def trim_def is_space_def)
  have "compareStrings sample_runtime (Some (str ''!'')) (Some (str ''!'')) = Fin 0.7"
    using compareStrings_self_value [of "str ''!''" sample_runtime] unfolding n
    by (simp add: str_def is_word_def)
  then show ?thesis using n by (simp add: str_def)
qed

text \<open>
  C3, amended: for a string x that is not empty and whose form after lower-casing and
  trimming holds at least one word character (a letter A to Z or a to z, a digit or the
  underscore), compareStrings(x, x) is exactly 1; when that form is not empty and
  holds no word character, the result is 0.7.
\<close>

theorem compareStrings_self:
  "(s \<noteq> [] \<and> (\<exists>c \<in> set (trim (toLowerCase rt s)). is_word c)
      \<longrightarrow> compareStrings rt (Some s) (Some s) = Fin 1)
   \<and> (s \<noteq> [] \<and> trim (toLowerCase rt s) \<noteq> [] \<and> (\<forall>c \<in> set (trim (toLowerCase rt s)). \<not> is_word c)
      \<longrightarrow> compareStrings rt (Some s) (Some s) = Fin 0.7)"
proof -
  have "trim (toLowerCase rt s) \<noteq> []" if "\<exists>c \<in> set (trim (toLowerCase rt s)). is_word c"
    using that by auto
  then show ?thesis using compareStrings_self_value [of s rt] by auto
qed

theorem compareStrings_self_witness:
  "str ''Hello'' \<noteq> []
   \<and> 104 \<in> set (trim (toLowerCase sample_runtime (str ''Hello''))) \<and> is_word 104
   \<and> compareStrings sample_runtime (Some (str ''Hello'')) (Some (str ''Hello'')) = Fin 1"
proof -
  have "104 \<in> set (trim (toLowerCase sample_runtime (str ''Hello''))) \<and> is_word 104
        \<and> str ''Hello'' \<noteq> []"
    by (simp add: sample_runtime_def ascii_lower_def str_def trim_def is_space_def is_word_def)
  then show ?thesis
    using compareStrings_self [of "str ''Hello''" sample_runtime] by blast
qed

text \<open>
  C5: for non-empty strings a and b (the lower-cased, trimmed arguments), the
  edit-distance sub-score is 1 - d / max(len a, len b), where d, the value the table
  of levenshtein ends with, is the least number of single-character insertions,
  deletions and substitutions that turn a into b.
\<close>

theorem levScore_edit_distance:
  "a \<noteq> [] \<Longrightarrow> b \<noteq> [] \<Longrightarrow>
   levenshtein a b = edit_distance a b \<and>
   levScore a b = Fin (1 - real (edit_distance a b) / real (max (length a) (length b)))"
  using levScore_finite [of a b] by (simp add: levenshtein_edit_distance)

theorem levScore_edit_distance_witness:
  "str ''cat'' \<noteq> [] \<and> str ''cart'' \<noteq> []
   \<and> edit_distance (str ''cat'') (str ''cart'') = 1
   \<and> levScore (str ''cat'') (str ''cart'') = Fin (3 / 4)"
proof -
  have l: "levenshtein (str ''cat'') (str ''cart'') = 1"
    by code_simp
  have ne: "str ''cat'' \<noteq> []" "str ''cart'' \<noteq> []" by (simp_all add: str_def)
  have len: "length (str ''cat'') = 3" "length (str ''cart'') = 4" by (simp_all add: str_def)
  show ?thesis
    using levScore_edit_distance [OF ne] l ne by (simp add: len)
qed

lemma blend_NaN:
  "Math_max (Fin 0) (Math_min (Fin 1)
     (js_add (js_add (js_mul (levScore [] []) (Fin 0.5)) (js_mul j (Fin 0.3)))
             (js_mul c (Fin 0.2)))) = NaN"
  by (simp add: levScore_def levenshtein_refl of_len_def js_sub_def)

text \<open>
  The range of compareStrings: the result is a number between 0 and 1 whenever an
  argument is absent or empty, or one of the two strings is not empty after
  lower-casing and trimming; it is NaN in the one remaining case, two non-empty
  strings that are both empty after lower-casing and trimming.
\<close>

theorem compareStrings_range:
  "(falsy a \<or> falsy b \<or> trim (toLowerCase rt (the a)) \<noteq> []
      \<or> trim (toLowerCase rt (the b)) \<noteq> []
    \<longrightarrow> (\<exists>x. compareStrings rt a b = Fin x \<and> 0 \<le> x \<and> x \<le> 1))
   \<and> (\<not> falsy a \<and> \<not> falsy b \<and> trim (toLowerCase rt (the a)) = []
      \<and> trim (toLowerCase rt (the b)) = []
    \<longrightarrow> compareStrings rt a b = NaN)"
  using compareStrings_finite [of a b rt] blend_NaN
  by (simp add: compareStrings_def Let_def)

theorem compareStrings_range_witness:
  "trim (toLowerCase sample_runtime (str ''  '')) = []
   \<and> compareStrings sample_runtime (Some (str ''  '')) (Some (str ''  '')) = NaN
   \<and> (\<exists>x. compareStrings sample_runtime (Some (str ''  '')) None = Fin x \<and> 0 \<le> x \<and> x \<le> 1)"
proof -
  have "trim (toLowerCase sample_runtime (str ''  '')) = []"
    by (simp add: sample_runtime_def ascii_lower_def str_def trim_def is_space_def)
  moreover have "\<not> falsy (Some (str ''  ''))" "falsy None"
    by (simp_all add: falsy_def str_def)
  ultimately show ?thesis
    using compareStrings_range [of "Some (str ''  '')" "Some (str ''  '')" sample_runtime]
      compareStrings_range [of "Some (str ''  '')" None sample_runtime]
    by simp
qed

text \<open>
  compareStrings is symmetric: compareStrings(a, b) and compareStrings(b, a) are the
  same value for all arguments.
\<close>

theorem compareStrings_symmetric:
  "compareStrings rt a b = compareStrings rt b a"
  by (rule compareStrings_sym)

section \<open>Properties of structuralBonus\<close>

text \<open>
  C7: structuralBonus splits both strings on spaces and drops the empty pieces; it is 0
  when either token list is empty, and otherwise the sum of 0.05 when the last tokens
  are equal and of 0.02 when the first code units of the first tokens are equal. The
  result is one of 0, 0.02, 0.05 and 0.07.
\<close>

theorem structuralBonus_spec:
  "structuralBonus a b =
     (if name_tokens a = [] \<or> name_tokens b = [] then Fin 0
      else Fin ((if last (name_tokens a) = last (name_tokens b) then 0.05 else 0) +
                (if hd (hd (name_tokens a)) = hd (hd (name_tokens b)) then 0.02 else 0)))
   \<and> structuralBonus a b \<in> {Fin 0, Fin 0.02, Fin 0.05, Fin 0.07}"
proof -
  have ne: "filter_Boolean ts \<noteq> [] \<Longrightarrow> last (filter_Boolean ts) \<noteq> []" for ts
    using filter_Boolean_nonempty last_in_set by blast
  have ne2: "filter_Boolean ts \<noteq> [] \<Longrightarrow> hd (filter_Boolean ts) \<noteq> []" for ts
    using filter_Boolean_nonempty hd_in_set by blast
  show ?thesis
    unfolding structuralBonus_def Let_def name_tokens_def
    by (simp add: ne ne2)
qed

section \<open>Properties of compareNames\<close>

text \<open>
  C6: compareNames is the direct computation min(1, base + bonus) on the two sanitized
  names: each variant list holds exactly the sanitized name, so the two loops run their
  body once, the running maximum starts at 0 and the clamped sum is never below 0.
  The helper joinSingles, which nothing calls, returns its argument.
\<close>

theorem compareNames_direct:
  "compareNames rt a b =
     Math_min (Fin 1)
       (js_add (compareStrings rt (Some (sanitizeName rt a)) (Some (sanitizeName rt b)))
               (structuralBonus (sanitizeName rt a) (sanitizeName rt b)))
   \<and> joinSingles s = s
   \<and> variantsA (sanitizeName rt a) = [sanitizeName rt a]
   \<and> variantsB (sanitizeName rt b) = [sanitizeName rt b]"
  using clamp_bonus_nonneg [OF compareStrings_cases structuralBonus_cases]
  by (simp add: compareNames_def variantsA_def variantsB_def Let_def joinSingles_id)

text \<open>
  C8: compareNames(a, b) equals compareNames(b, a): the blended string similarity and
  the structural bonus are each symmetric. With a runtime whose lower-casing keeps
  visible characters visible the common value is a number, so that the two results
  are also equal for the comparison operator of the language.
\<close>

theorem compareNames_sym:
  "compareNames rt a b = compareNames rt b a
   \<and> (keeps_visible rt \<longrightarrow> js_strict_eq (compareNames rt a b) (compareNames rt b a))"
proof -
  have e: "compareNames rt a b = compareNames rt b a"
    by (simp add: compareNames_min compareStrings_sym [of rt "Some (sanitizeName rt a)"]
        structuralBonus_sym [of "sanitizeName rt a"])
  have "js_strict_eq (compareNames rt a b) (compareNames rt b a)" if kv: "keeps_visible rt"
  proof -
    obtain y where "compareNames rt a b = Fin y" using compareNames_finite [OF kv] by blast
    then show ?thesis using e by simp
  qed
  then show ?thesis using e by blast
qed

theorem compareNames_sym_witness:
  "keeps_visible sample_runtime
   \<and> js_strict_eq (compareNames sample_runtime (Some (str ''John Smith'')) (Some (str ''Jane Smith'')))
                  (compareNames sample_runtime (Some (str ''Jane Smith'')) (Some (str ''John Smith'')))"
  using compareNames_sym [of sample_runtime "Some (str ''John Smith'')" "Some (str ''Jane Smith'')"]
    sample_keeps_visible by blast

text \<open>
  C10: compareNames(a, b) is at least compareStrings(sanitizeName(a), sanitizeName(b)):
  the bonus is not negative and the base score is at most 1, so the clamped sum is not
  below the base score. Both are numbers when lower-casing keeps visible characters
  visible, as the lower-casing of the language does.
\<close>

theorem compareNames_ge_base:
  "keeps_visible rt \<Longrightarrow>
   js_le (compareStrings rt (Some (sanitizeName rt a)) (Some (sanitizeName rt b)))
         (compareNames rt a b)"
proof -
  assume "keeps_visible rt"
  then obtain x y where
    "compareStrings rt (Some (sanitizeName rt a)) (Some (sanitizeName rt b)) = Fin x"
    "compareNames rt a b = Fin y" "x \<le> y"
    using compareNames_finite [of rt a b] by blast
  then show ?thesis by simp
qed

theorem compareNames_ge_base_witness:
  "keeps_visible sample_runtime
   \<and> js_le (compareStrings sample_runtime
              (Some (sanitizeName sample_runtime (Some (str ''John Smith''))))
              (Some (sanitizeName sample_runtime (Some (str ''Jane Smith'')))))
            (compareNames sample_runtime (Some (str ''John Smith'')) (Some (str ''Jane Smith'')))"
  using compareNames_ge_base [OF sample_keeps_visible, of "Some (str ''John Smith'')"
      "Some (str ''Jane Smith'')"] sample_keeps_visible by blast

end
